theory Spec2Isabelle
  imports Complex_Main "HOL-Library.Word" "HOL-Library.Log_Nat"
begin

section \<open>JavaScript values shared by both source files\<close>

text \<open>
  A JavaScript string is a sequence of UTF-16 code units. Literals of the source that
  are plain ASCII are written \<open>js ''...''\<close>.
\<close>

type_synonym code_unit = "16 word"
type_synonym jsstring = "code_unit list"

definition js :: "string \<Rightarrow> jsstring" where
  "js cs = map of_char cs"

text \<open>
  \<open>classList\<close> is an ordered set of tokens: \<open>add\<close> appends a token that is not yet
  there, \<open>remove\<close> deletes it.
\<close>

definition classList_add :: "jsstring \<Rightarrow> jsstring list \<Rightarrow> jsstring list" where
  "classList_add c cs = (if c \<in> set cs then cs else cs @ [c])"

definition classList_remove :: "jsstring \<Rightarrow> jsstring list \<Rightarrow> jsstring list" where
  "classList_remove c cs = filter (\<lambda>x. x \<noteq> c) cs"

text \<open>Decimal digits of a natural number, most significant first (\<open>String(n)\<close>).\<close>

definition digit_unit :: "nat \<Rightarrow> code_unit" where
  "digit_unit k = of_nat (48 + k)"

function decimal :: "nat \<Rightarrow> jsstring" where
  "decimal n = (if n < 10 then [digit_unit n] else decimal (n div 10) @ [digit_unit (n mod 10)])"
  by pat_completeness auto
termination
  by (relation "measure (\<lambda>n. n)") auto

declare decimal.simps [simp del]


section \<open>countdown.js\<close>

subsection \<open>Numbers of the countdown\<close>

text \<open>
  Every number the countdown computes is either an integer or \<open>NaN\<close>: time values
  (\<open>getTime()\<close>, \<open>Date.now()\<close>) are integral milliseconds, \<open>getTime()\<close> of an invalid
  date is \<open>NaN\<close>, and the tick only subtracts, divides with \<open>Math.floor\<close> and takes
  remainders. Below \<open>2^53\<close> these operations are exact on doubles.
\<close>

datatype jsint = IntV int | NaNV

fun js_sub :: "jsint \<Rightarrow> jsint \<Rightarrow> jsint" where
  "js_sub (IntV a) (IntV b) = IntV (a - b)"
| "js_sub _ _ = NaNV"

text \<open>\<open>x <= 0\<close>: every comparison with \<open>NaN\<close> is false.\<close>

fun js_le_zero :: "jsint \<Rightarrow> bool" where
  "js_le_zero (IntV a) = (a \<le> 0)"
| "js_le_zero NaNV = False"

text \<open>\<open>Math.floor(x / k)\<close> for a non-zero integer literal \<open>k\<close>.\<close>

fun floor_div :: "jsint \<Rightarrow> int \<Rightarrow> jsint" where
  "floor_div (IntV a) k = IntV (a div k)"
| "floor_div NaNV k = NaNV"

text \<open>\<open>x % k\<close> for a non-zero integer literal \<open>k\<close>: the result has the sign of \<open>x\<close>.\<close>

fun js_rem :: "jsint \<Rightarrow> int \<Rightarrow> jsint" where
  "js_rem (IntV a) k = IntV (sgn a * (\<bar>a\<bar> mod \<bar>k\<bar>))"
| "js_rem NaNV k = NaNV"

text \<open>\<open>a !== b\<close> on numbers: \<open>NaN\<close> is unequal to everything, itself included.\<close>

fun strict_neq :: "jsint \<Rightarrow> jsint \<Rightarrow> bool" where
  "strict_neq (IntV a) (IntV b) = (a \<noteq> b)"
| "strict_neq _ _ = True"

text \<open>\<open>String(n)\<close>; integers print as decimal digits (the countdown stays far below
  \<open>10^21\<close>, where exponent notation would begin).\<close>

fun toString :: "jsint \<Rightarrow> jsstring" where
  "toString (IntV a) = (if a < 0 then js ''-'' @ decimal (nat (- a)) else decimal (nat a))"
| "toString NaNV = js ''NaN''"

definition padStart :: "nat \<Rightarrow> code_unit \<Rightarrow> jsstring \<Rightarrow> jsstring" where
  "padStart n c s = replicate (n - length s) c @ s"

definition pad2 :: "jsint \<Rightarrow> jsstring" where
  "pad2 n = padStart 2 (of_char CHR ''0'') (toString n)"

subsection \<open>The page as the countdown sees it\<close>

datatype digit_el = DaysEl | HoursEl | MinsEl | SecsEl

text \<open>Every operation the module performs on the page, in the order performed.\<close>

datatype dom_op =
    SetText digit_el jsstring
  | ClassRemove digit_el jsstring
  | Reflow digit_el
  | ClassAdd digit_el jsstring
  | SetAttribute jsstring jsstring
  | ClearInterval "nat option"
  | SetInterval nat

record prev_vals =
  p_d :: jsint
  p_h :: jsint
  p_m :: jsint
  p_s :: jsint

record countdown =
  textContent :: "digit_el \<Rightarrow> jsstring"
  classList :: "digit_el \<Rightarrow> jsstring list"
  ariaLabel :: "jsstring option"
  prev :: prev_vals
  intervalId :: "nat option"
  timers :: "nat set"
  nextHandle :: nat
  trace :: "dom_op list"

definition setText :: "digit_el \<Rightarrow> jsstring \<Rightarrow> countdown \<Rightarrow> countdown" where
  "setText el t c = c\<lparr>textContent := (textContent c)(el := t), trace := trace c @ [SetText el t]\<rparr>"

definition triggerFlip :: "digit_el \<Rightarrow> countdown \<Rightarrow> countdown" where
  "triggerFlip el c =
     (let c1 = c\<lparr>classList := (classList c)(el := classList_remove (js ''is-flipping'') (classList c el)),
                  trace := trace c @ [ClassRemove el (js ''is-flipping'')]\<rparr>;
          c2 = c1\<lparr>trace := trace c1 @ [Reflow el]\<rparr>
      in c2\<lparr>classList := (classList c2)(el := classList_add (js ''is-flipping'') (classList c2 el)),
              trace := trace c2 @ [ClassAdd el (js ''is-flipping'')]\<rparr>)"

definition updateDigit :: "digit_el \<Rightarrow> jsint \<Rightarrow> jsint \<Rightarrow> countdown \<Rightarrow> jsint \<times> countdown" where
  "updateDigit el newVal oldVal c =
     (if strict_neq newVal oldVal then (newVal, triggerFlip el (setText el (pad2 newVal) c))
      else (newVal, c))"

text \<open>
  \<open>clearInterval(id)\<close>: cancels the timer with that handle; a handle that names no
  timer, \<open>undefined\<close> included, is ignored.
\<close>

definition clearInterval :: "nat option \<Rightarrow> countdown \<Rightarrow> countdown" where
  "clearInterval h c =
     (let c1 = c\<lparr>trace := trace c @ [ClearInterval h]\<rparr>
      in case h of None \<Rightarrow> c1 | Some i \<Rightarrow> c1\<lparr>timers := timers c1 - {i}\<rparr>)"

definition setInterval :: "countdown \<Rightarrow> nat \<times> countdown" where
  "setInterval c =
     (let h = nextHandle c
      in (h, c\<lparr>timers := insert h (timers c), nextHandle := Suc h, trace := trace c @ [SetInterval h]\<rparr>))"

text \<open>
  One tick. \<open>tv\<close> is \<open>new Date(container.dataset.targetDate).getTime()\<close>, read anew at
  every tick, and \<open>now\<close> is \<open>Date.now()\<close>.
\<close>

definition tick :: "jsint \<Rightarrow> int \<Rightarrow> countdown \<Rightarrow> countdown" where
  "tick tv now c =
     (let diff = js_sub tv (IntV now) in
      if js_le_zero diff then
        (let c1 = clearInterval (intervalId c) c;
             c2 = setText SecsEl (js ''00'') c1;
             c3 = setText MinsEl (js ''00'') c2;
             c4 = setText HoursEl (js ''00'') c3;
             c5 = setText DaysEl (js ''00'') c4
         in c5\<lparr>ariaLabel := Some (js ''We have launched!''),
                 trace := trace c5 @ [SetAttribute (js ''aria-label'') (js ''We have launched!'')]\<rparr>)
      else
        (let totalSecs = floor_div diff 1000;
             d = floor_div totalSecs 86400;
             h = floor_div (js_rem totalSecs 86400) 3600;
             m = floor_div (js_rem totalSecs 3600) 60;
             s = js_rem totalSecs 60;
             (vd, c1) = updateDigit DaysEl d (p_d (prev c)) c;
             c1 = c1\<lparr>prev := (prev c1)\<lparr>p_d := vd\<rparr>\<rparr>;
             (vh, c2) = updateDigit HoursEl h (p_h (prev c1)) c1;
             c2 = c2\<lparr>prev := (prev c2)\<lparr>p_h := vh\<rparr>\<rparr>;
             (vm, c3) = updateDigit MinsEl m (p_m (prev c2)) c2;
             c3 = c3\<lparr>prev := (prev c3)\<lparr>p_m := vm\<rparr>\<rparr>;
             (vs, c4) = updateDigit SecsEl s (p_s (prev c3)) c3
         in c4\<lparr>prev := (prev c4)\<lparr>p_s := vs\<rparr>\<rparr>))"

text \<open>
  \<open>init\<close>: nothing happens unless the container and the four digit elements exist;
  otherwise \<open>prev\<close> starts at \<open>-1\<close>, the first tick runs at once, and only then is the
  interval created and its handle stored.
\<close>

definition declare_locals :: "countdown \<Rightarrow> countdown" where
  "declare_locals c =
     c\<lparr>prev := \<lparr>p_d = IntV (- 1), p_h = IntV (- 1), p_m = IntV (- 1), p_s = IntV (- 1)\<rparr>,
       intervalId := None\<rparr>"

definition init :: "bool \<Rightarrow> bool \<Rightarrow> jsint \<Rightarrow> int \<Rightarrow> countdown \<Rightarrow> countdown" where
  "init hasContainer hasDigits tv now c =
     (if \<not> hasContainer then c
      else if \<not> hasDigits then c
      else
        (let c0 = declare_locals c;
             c1 = tick tv now c0;
             (h, c2) = setInterval c1
         in c2\<lparr>intervalId := Some h\<rparr>))"

text \<open>
  The host runs the interval's callback once per period for as long as the timer
  exists; with no timer left nothing runs.
\<close>

definition timer_fires :: "jsint \<Rightarrow> int \<Rightarrow> countdown \<Rightarrow> countdown option" where
  "timer_fires tv now c = (if timers c = {} then None else Some (tick tv now c))"

text \<open>A page session after \<open>init\<close>: one pair (time value of the target, clock) per period.\<close>

fun session :: "(jsint \<times> int) list \<Rightarrow> countdown \<Rightarrow> countdown" where
  "session [] c = c"
| "session ((tv, now) # rest) c =
     (case timer_fires tv now c of None \<Rightarrow> c | Some c' \<Rightarrow> session rest c')"

text \<open>The page before the script runs: the markup's texts, no timer, nothing done yet.\<close>

definition fresh_page :: "(digit_el \<Rightarrow> jsstring) \<Rightarrow> countdown" where
  "fresh_page texts =
     \<lparr>textContent = texts, classList = (\<lambda>_. []), ariaLabel = None,
      prev = \<lparr>p_d = IntV (- 1), p_h = IntV (- 1), p_m = IntV (- 1), p_s = IntV (- 1)\<rparr>,
      intervalId = None, timers = {}, nextHandle = 1, trace = []\<rparr>"

text \<open>Observations used to state the properties: which element an operation touches,
  and the operations a step appended to the trace.\<close>

fun op_target :: "dom_op \<Rightarrow> digit_el option" where
  "op_target (SetText el _) = Some el"
| "op_target (ClassRemove el _) = Some el"
| "op_target (Reflow el) = Some el"
| "op_target (ClassAdd el _) = Some el"
| "op_target (SetAttribute _ _) = None"
| "op_target (ClearInterval _) = None"
| "op_target (SetInterval _) = None"

definition ops_on :: "digit_el \<Rightarrow> dom_op list \<Rightarrow> dom_op list" where
  "ops_on el ops = filter (\<lambda>x. op_target x = Some el) ops"

definition new_ops :: "countdown \<Rightarrow> countdown \<Rightarrow> dom_op list" where
  "new_ops before after = drop (length (trace before)) (trace after)"

fun prev_of :: "digit_el \<Rightarrow> prev_vals \<Rightarrow> jsint" where
  "prev_of DaysEl p = p_d p"
| "prev_of HoursEl p = p_h p"
| "prev_of MinsEl p = p_m p"
| "prev_of SecsEl p = p_s p"

text \<open>The four operations of one digit mutation: rewrite the text, restart the flip.\<close>

definition mutation :: "digit_el \<Rightarrow> jsint \<Rightarrow> dom_op list" where
  "mutation el v =
     [SetText el (pad2 v), ClassRemove el (js ''is-flipping''), Reflow el,
      ClassAdd el (js ''is-flipping'')]"

text \<open>The value a running tick computes for each element (the lines \<open>totalSecs\<close> to
  \<open>s\<close> of \<open>tick\<close>).\<close>

fun computed :: "jsint \<Rightarrow> int \<Rightarrow> digit_el \<Rightarrow> jsint" where
  "computed tv now DaysEl = floor_div (floor_div (js_sub tv (IntV now)) 1000) 86400"
| "computed tv now HoursEl = floor_div (js_rem (floor_div (js_sub tv (IntV now)) 1000) 86400) 3600"
| "computed tv now MinsEl = floor_div (js_rem (floor_div (js_sub tv (IntV now)) 1000) 3600) 60"
| "computed tv now SecsEl = js_rem (floor_div (js_sub tv (IntV now)) 1000) 60"

declare computed.simps [simp del]

text \<open>What \<open>updateDigit\<close> appends for one element in a running tick.\<close>

definition upd_ops :: "jsint \<Rightarrow> int \<Rightarrow> countdown \<Rightarrow> digit_el \<Rightarrow> dom_op list" where
  "upd_ops tv now c el =
     (if strict_neq (computed tv now el) (prev_of el (prev c)) then mutation el (computed tv now el)
      else [])"

text \<open>The element shows the stored previous value, or nothing has been stored yet
  (\<open>prev\<close> still holds its initial \<open>-1\<close>).\<close>

definition shown :: "countdown \<Rightarrow> digit_el \<Rightarrow> bool" where
  "shown c el =
     (prev_of el (prev c) = IntV (- 1) \<or> textContent c el = pad2 (prev_of el (prev c)))"

text \<open>A page opened one second after its target date has passed.\<close>

definition launched_page :: countdown where
  "launched_page = init True True (IntV 1000) 2000 (fresh_page (\<lambda>_. js ''--''))"

text \<open>Two consecutive ticks one second apart, with 90061 and then 90060 seconds left.\<close>

definition demo_page1 :: countdown where
  "demo_page1 = tick (IntV 90061000) 0 (fresh_page (\<lambda>_. js ''--''))"

definition demo_page2 :: countdown where
  "demo_page2 = tick (IntV 90061000) 1000 demo_page1"

text \<open>Two consecutive ticks of a page whose target date does not parse.\<close>

definition nan_page1 :: countdown where
  "nan_page1 = tick NaNV 0 (fresh_page (\<lambda>_. js ''--''))"

definition nan_page2 :: countdown where
  "nan_page2 = tick NaNV 1000 nan_page1"

text \<open>Everything a tick appends when all four values are \<open>NaN\<close>.\<close>

definition nan_ops :: "dom_op list" where
  "nan_ops = mutation DaysEl NaNV @ mutation HoursEl NaNV @ mutation MinsEl NaNV @ mutation SecsEl NaNV"

section \<open>main.js\<close>

subsection \<open>Numbers of the page effects\<close>

text \<open>
  The numbers of \<open>main.js\<close> are IEEE 754 doubles. A finite double is modelled by the
  real number it denotes, next to \<open>NaN\<close> and the two infinities (\<open>Infty True\<close> is
  \<open>+Infinity\<close>). An arithmetic operation takes the exact real result and rounds it to
  the nearest double, ties to even. The sign of zero is not represented; the modelled
  code neither divides by a zero nor prints one with its sign.
\<close>

datatype jsnum = Num real | NaN | Infty bool

text \<open>The nearest integer, the even one on a tie.\<close>

definition rhe :: "real \<Rightarrow> int" where
  "rhe q =
     (let f = \<lfloor>q\<rfloor>; r = q - of_int f
      in if r < 1 / 2 then f else if 1 / 2 < r then f + 1 else if even f then f else f + 1)"

text \<open>The binary exponent \<open>e\<close> of a non-zero real: \<open>2^e \<le> |x| < 2^(e+1)\<close>.\<close>

definition expo :: "real \<Rightarrow> int" where
  "expo x = (if 1 \<le> \<bar>x\<bar> then bitlen \<lfloor>\<bar>x\<bar>\<rfloor> - 1 else - bitlen (\<lceil>1 / \<bar>x\<bar>\<rceil> - 1))"

text \<open>The distance between neighbouring doubles around \<open>x\<close>: 53 significant bits, and
  \<open>2^-1074\<close> throughout the subnormal range.\<close>

definition ulp :: "real \<Rightarrow> real" where
  "ulp x = 2 powi (max (expo x) (- 1022) - 52)"

definition nearest :: "real \<Rightarrow> real" where
  "nearest x = (if x = 0 then 0 else of_int (rhe (x / ulp x)) * ulp x)"

text \<open>The Number value of a real: the nearest double, or an infinity once rounding
  reaches \<open>2^1024\<close>.\<close>

definition rd :: "real \<Rightarrow> jsnum" where
  "rd x = (if 2 ^ 1024 \<le> \<bar>nearest x\<bar> then Infty (0 < x) else Num (nearest x))"

definition is_double :: "real \<Rightarrow> bool" where
  "is_double x = (rd x = Num x)"

fun js_neg :: "jsnum \<Rightarrow> jsnum" where
  "js_neg (Num a) = Num (- a)"
| "js_neg NaN = NaN"
| "js_neg (Infty s) = Infty (\<not> s)"

fun js_add :: "jsnum \<Rightarrow> jsnum \<Rightarrow> jsnum" where
  "js_add (Num a) (Num b) = rd (a + b)"
| "js_add NaN _ = NaN"
| "js_add _ NaN = NaN"
| "js_add (Infty s) (Num b) = Infty s"
| "js_add (Num a) (Infty s) = Infty s"
| "js_add (Infty s) (Infty t) = (if s = t then Infty s else NaN)"

definition js_minus :: "jsnum \<Rightarrow> jsnum \<Rightarrow> jsnum" where
  "js_minus a b = js_add a (js_neg b)"

fun js_mul :: "jsnum \<Rightarrow> jsnum \<Rightarrow> jsnum" where
  "js_mul (Num a) (Num b) = rd (a * b)"
| "js_mul NaN _ = NaN"
| "js_mul _ NaN = NaN"
| "js_mul (Infty s) (Num b) = (if b = 0 then NaN else Infty (s = (0 < b)))"
| "js_mul (Num a) (Infty s) = (if a = 0 then NaN else Infty (s = (0 < a)))"
| "js_mul (Infty s) (Infty t) = Infty (s = t)"

subsection \<open>Strings to numbers\<close>

text \<open>White space and line terminators: what \<open>trim\<close> strips and \<open>\s\<close> matches.\<close>

definition isWhiteSpace :: "code_unit \<Rightarrow> bool" where
  "isWhiteSpace c =
     (c = 0x09 \<or> c = 0x0A \<or> c = 0x0B \<or> c = 0x0C \<or> c = 0x0D \<or> c = 0x20 \<or> c = 0xA0 \<or>
      c = 0x1680 \<or> (0x2000 \<le> c \<and> c \<le> 0x200A) \<or> c = 0x2028 \<or> c = 0x2029 \<or>
      c = 0x202F \<or> c = 0x205F \<or> c = 0x3000 \<or> c = 0xFEFF)"

definition isDigit :: "code_unit \<Rightarrow> bool" where
  "isDigit c = (0x30 \<le> c \<and> c \<le> 0x39)"

definition digits_val :: "jsstring \<Rightarrow> nat" where
  "digits_val ds = foldl (\<lambda>a c. 10 * a + (unat c - 48)) 0 ds"

text \<open>An optional sign: whether it was a minus, and the rest.\<close>

fun take_sign :: "jsstring \<Rightarrow> bool \<times> jsstring" where
  "take_sign [] = (False, [])"
| "take_sign (c # r) =
     (if c = of_char CHR ''-'' then (True, r)
      else if c = of_char CHR ''+'' then (False, r)
      else (False, c # r))"

text \<open>The exponent part \<open>e\<close>/\<open>E\<close>, sign, digits; without digits there is no exponent.\<close>

fun exponent_part :: "jsstring \<Rightarrow> int" where
  "exponent_part [] = 0"
| "exponent_part (c # r) =
     (if c = of_char CHR ''e'' \<or> c = of_char CHR ''E'' then
        (let (eneg, r') = take_sign r; ds = takeWhile isDigit r'
         in if ds = [] then 0 else if eneg then - int (digits_val ds) else int (digits_val ds))
      else 0)"

fun fraction_part :: "jsstring \<Rightarrow> jsstring \<times> jsstring" where
  "fraction_part [] = ([], [])"
| "fraction_part (c # r) =
     (if c = of_char CHR ''.'' then (takeWhile isDigit r, dropWhile isDigit r) else ([], c # r))"

definition scale10 :: "real \<Rightarrow> int \<Rightarrow> real" where
  "scale10 x e = (if 0 \<le> e then x * 10 ^ nat e else x / 10 ^ nat (- e))"

text \<open>
  \<open>parseFloat\<close>: skip leading white space, then read the longest prefix that is a
  decimal literal (sign, \<open>Infinity\<close> or digits with an optional fraction and exponent);
  \<open>NaN\<close> when there is none. The result is the Number value of the literal: its
  mathematical value rounded to the nearest double.
\<close>

definition parseFloat :: "jsstring \<Rightarrow> jsnum" where
  "parseFloat input =
     (let (neg, s1) = take_sign (dropWhile isWhiteSpace input) in
      if take 8 s1 = js ''Infinity'' then Infty (\<not> neg)
      else
        (let ip = takeWhile isDigit s1;
             (fp, r2) = fraction_part (dropWhile isDigit s1)
         in if ip = [] \<and> fp = [] then NaN
            else
              (let mant = real (digits_val ip) + real (digits_val fp) / 10 ^ length fp
               in rd (scale10 (if neg then - mant else mant) (exponent_part r2)))))"


subsection \<open>ParallaxField\<close>

record orb_el =
  depth_attr :: "jsstring option"
  transform :: "(jsnum \<times> jsnum) option"

datatype handler = OnMouseMove | OnResize

datatype js_error = TypeError

text \<open>
  The module's variables and the part of the window it uses: the registered listeners
  and the pending animation frame requests. \<open>elements\<close> and \<open>rafId\<close> are undefined
  (\<open>None\<close>) until assigned. The \<open>transform\<close> of an element holds the two numbers that
  \<open>animate\<close> prints with two decimals into \<open>translate3d(..px, ..px, 0)\<close>.
\<close>

record parallax =
  elements :: "orb_el list option"
  currentX :: jsnum
  currentY :: jsnum
  targetX :: jsnum
  targetY :: jsnum
  rafId :: "nat option"
  listeners :: "(jsstring \<times> handler) list"
  frames :: "nat set"
  nextFrame :: nat

text \<open>The literal \<open>0.065\<close> denotes the double nearest to it.\<close>

definition LERP :: jsnum where
  "LERP = rd (65 / 1000)"

definition lerp :: "jsnum \<Rightarrow> jsnum \<Rightarrow> jsnum \<Rightarrow> jsnum" where
  "lerp a b t = js_add a (js_mul (js_minus b a) t)"

definition requestAnimationFrame :: "parallax \<Rightarrow> nat \<times> parallax" where
  "requestAnimationFrame s =
     (let h = nextFrame s in (h, s\<lparr>frames := insert h (frames s), nextFrame := Suc h\<rparr>))"

text \<open>\<open>cancelAnimationFrame(undefined)\<close> names no request and does nothing.\<close>

definition cancelAnimationFrame :: "nat option \<Rightarrow> parallax \<Rightarrow> parallax" where
  "cancelAnimationFrame h s = (case h of None \<Rightarrow> s | Some i \<Rightarrow> s\<lparr>frames := frames s - {i}\<rparr>)"

text \<open>A listener already registered is not registered twice; removing one that is not
  registered does nothing.\<close>

definition addEventListener :: "jsstring \<Rightarrow> handler \<Rightarrow> parallax \<Rightarrow> parallax" where
  "addEventListener ev f s =
     (if (ev, f) \<in> set (listeners s) then s else s\<lparr>listeners := listeners s @ [(ev, f)]\<rparr>)"

definition removeEventListener :: "jsstring \<Rightarrow> handler \<Rightarrow> parallax \<Rightarrow> parallax" where
  "removeEventListener ev f s = s\<lparr>listeners := filter (\<lambda>l. l \<noteq> (ev, f)) (listeners s)\<rparr>"

text \<open>\<open>parseFloat(el.dataset.depth || 0.05)\<close>: an absent or empty attribute is falsy, and
  the number \<open>0.05\<close> is parsed from its string \<open>0.05\<close>.\<close>

definition depth_of :: "orb_el \<Rightarrow> jsnum" where
  "depth_of el =
     parseFloat (case depth_attr el of None \<Rightarrow> js ''0.05''
                 | Some a \<Rightarrow> if a = [] then js ''0.05'' else a)"

definition place :: "jsnum \<Rightarrow> jsnum \<Rightarrow> orb_el \<Rightarrow> orb_el" where
  "place cx cy el =
     (let depth = depth_of el;
          dx = js_mul (js_mul cx depth) (Num 80);
          dy = js_mul (js_mul cy depth) (Num 80)
      in el\<lparr>transform := Some (dx, dy)\<rparr>)"

text \<open>One animation frame. \<open>elements.forEach\<close> on an undefined \<open>elements\<close> throws.\<close>

definition animate :: "parallax \<Rightarrow> js_error + parallax" where
  "animate s =
     (let s1 = s\<lparr>currentX := lerp (currentX s) (targetX s) LERP\<rparr>;
          s2 = s1\<lparr>currentY := lerp (currentY s1) (targetY s1) LERP\<rparr>
      in case elements s2 of
           None \<Rightarrow> Inl TypeError
         | Some els \<Rightarrow>
             (let s3 = s2\<lparr>elements := Some (map (place (currentX s2) (currentY s2)) els)\<rparr>;
                  (h, s4) = requestAnimationFrame s3
              in Inr (s4\<lparr>rafId := Some h\<rparr>)))"

text \<open>\<open>init\<close>: \<open>found\<close> is what the selector returns, \<open>touchOnly\<close> is \<open>isTouchOnly()\<close>.\<close>

definition parallax_init :: "orb_el list \<Rightarrow> bool \<Rightarrow> parallax \<Rightarrow> js_error + parallax" where
  "parallax_init found touchOnly s =
     (let s1 = s\<lparr>elements := Some found\<rparr> in
      if found = [] \<or> touchOnly then Inr s1
      else
        (let s2 = addEventListener (js ''mousemove'') OnMouseMove s1;
             s3 = addEventListener (js ''resize'') OnResize s2;
             (h, s4) = requestAnimationFrame s3
         in Inr (s4\<lparr>rafId := Some h\<rparr>)))"

definition destroy :: "parallax \<Rightarrow> js_error + parallax" where
  "destroy s =
     (let s1 = removeEventListener (js ''mousemove'') OnMouseMove s;
          s2 = removeEventListener (js ''resize'') OnResize s1
      in Inr (cancelAnimationFrame (rafId s2) s2))"

text \<open>The module as loaded: offsets zero, nothing assigned, nothing registered.\<close>

definition parallax_loaded :: parallax where
  "parallax_loaded =
     \<lparr>elements = None, currentX = Num 0, currentY = Num 0, targetX = Num 0, targetY = Num 0,
      rafId = None, listeners = [], frames = {}, nextFrame = 1\<rparr>"

text \<open>The host runs a pending frame request once: it leaves the pending set and its
  callback, \<open>animate\<close>, runs.\<close>

definition frame_fires :: "nat \<Rightarrow> parallax \<Rightarrow> (js_error + parallax) option" where
  "frame_fires h s = (if h \<in> frames s then Some (animate (s\<lparr>frames := frames s - {h}\<rparr>)) else None)"

text \<open>\<open>n\<close> display frames in a row, with no pointer event in between.\<close>

fun run_frames :: "nat \<Rightarrow> parallax \<Rightarrow> js_error + parallax" where
  "run_frames 0 s = Inr s"
| "run_frames (Suc n) s =
     (case rafId s of
        None \<Rightarrow> Inr s
      | Some h \<Rightarrow>
          (case frame_fires h s of
             None \<Rightarrow> Inr s
           | Some (Inl e) \<Rightarrow> Inl e
           | Some (Inr s') \<Rightarrow> run_frames n s'))"

text \<open>The offset after \<open>n\<close> interpolation steps towards a fixed target.\<close>

fun lerp_seq :: "jsnum \<Rightarrow> jsnum \<Rightarrow> jsnum \<Rightarrow> nat \<Rightarrow> jsnum" where
  "lerp_seq a b t 0 = a"
| "lerp_seq a b t (Suc n) = lerp (lerp_seq a b t n) b t"

text \<open>The loop is running: the elements are known and the one pending request is the
  one \<open>rafId\<close> names.\<close>

definition looping :: "parallax \<Rightarrow> bool" where
  "looping s = (elements s \<noteq> None \<and> (case rafId s of None \<Rightarrow> False | Some h \<Rightarrow> frames s = {h}))"


text \<open>A running field with two elements, one with depth \<open>0.08\<close> and one whose depth
  attribute is not a number, and the pointer right of and above the centre.\<close>

definition demo_field :: parallax where
  "demo_field =
     \<lparr>elements = Some [\<lparr>depth_attr = Some (js ''0.08''), transform = None\<rparr>,
                       \<lparr>depth_attr = Some (js ''abc''), transform = None\<rparr>],
      currentX = Num 0, currentY = Num 0, targetX = Num 1, targetY = Num (- 1),
      rafId = Some 1,
      listeners = [(js ''mousemove'', OnMouseMove), (js ''resize'', OnResize)],
      frames = {1}, nextFrame = 2\<rparr>"


text \<open>The same field with the horizontal offset seven spacings below its target 1, and
  the vertical one as far above its target.\<close>

definition stalled_field :: parallax where
  "stalled_field = demo_field\<lparr>currentX := Num (1 - 7 / 2 ^ 53), currentY := Num (- (1 - 7 / 2 ^ 53))\<rparr>"


subsection \<open>Utils and OrbInit\<close>

text \<open>\<open>randBetween(min, max)\<close>, with \<open>r\<close> the value \<open>Math.random()\<close> returned.\<close>

definition randBetween :: "jsnum \<Rightarrow> jsnum \<Rightarrow> jsnum \<Rightarrow> jsnum" where
  "randBetween lo hi r = js_add (js_mul r (js_minus hi lo)) lo"

text \<open>
  Fixed-point notation with \<open>f\<close> decimals for a finite \<open>x\<close> below \<open>10^21\<close> in magnitude
  (beyond that JavaScript prints exponent notation; \<open>OrbInit\<close> stays below 27): the sign,
  then the integer \<open>n\<close> nearest to \<open>x * 10^f\<close>, the larger one on a tie, printed with at
  least \<open>f + 1\<close> digits and a point before the last \<open>f\<close>.
\<close>

definition fixed_notation :: "nat \<Rightarrow> real \<Rightarrow> jsstring" where
  "fixed_notation f x =
     (let n = nat \<lfloor>\<bar>x\<bar> * 10 ^ f + 1 / 2\<rfloor>;
          m = decimal n;
          m = replicate (Suc f - length m) (of_char CHR ''0'') @ m;
          k = length m - f
      in (if x < 0 then js ''-'' else []) @
         (if f = 0 then m else take k m @ js ''.'' @ drop k m))"

text \<open>\<open>x.toFixed(f)\<close>: a number that is not finite prints as its name.\<close>

fun toFixed :: "nat \<Rightarrow> jsnum \<Rightarrow> jsstring" where
  "toFixed f (Num x) = fixed_notation f x"
| "toFixed f NaN = js ''NaN''"
| "toFixed f (Infty s) = (if s then js ''Infinity'' else js ''-Infinity'')"

type_synonym style = "jsstring \<rightharpoonup> jsstring"

definition setProperty :: "jsstring \<Rightarrow> jsstring \<Rightarrow> style \<Rightarrow> style" where
  "setProperty name v st = st(name \<mapsto> v)"

text \<open>The body of the \<open>forEach\<close> callback; \<open>r1\<close> and \<open>r2\<close> are its two random draws.\<close>

definition orb_assign :: "real \<Rightarrow> real \<Rightarrow> style \<Rightarrow> style" where
  "orb_assign r1 r2 st =
     (let duration = toFixed 1 (randBetween (Num 10) (Num 26) (Num r1));
          delay = toFixed 1 (randBetween (Num 0) (Num 12) (Num r2));
          st1 = setProperty (js ''--orb-duration'') (duration @ js ''s'') st
      in setProperty (js ''--orb-delay'') (js ''-'' @ delay @ js ''s'') st1)"

text \<open>\<open>OrbInit.init\<close> over the matched elements; \<open>random k\<close> is what the \<open>k\<close>-th call of
  \<open>Math.random()\<close> returns.\<close>

fun orb_init :: "(nat \<Rightarrow> real) \<Rightarrow> nat \<Rightarrow> style list \<Rightarrow> style list" where
  "orb_init random k [] = []"
| "orb_init random k (el # els) =
     orb_assign (random k) (random (Suc k)) el # orb_init random (Suc (Suc k)) els"







subsection \<open>Regular expressions\<close>

text \<open>
  The fragment of regular expressions the email pattern is written in: character
  classes, sequence and repetition; \<open>Fail\<close>, \<open>Eps\<close> and \<open>Alt\<close> arise while matching.
  \<open>regex_test r s\<close> is \<open>/^r$/.test(s)\<close>, computed by consuming \<open>s\<close> one code unit at a
  time.
\<close>

datatype regex =
    Fail
  | Eps
  | Cls "code_unit \<Rightarrow> bool"
  | Alt regex regex
  | Seq regex regex
  | Rep regex

fun nullable :: "regex \<Rightarrow> bool" where
  "nullable Fail = False"
| "nullable Eps = True"
| "nullable (Cls P) = False"
| "nullable (Alt r s) = (nullable r \<or> nullable s)"
| "nullable (Seq r s) = (nullable r \<and> nullable s)"
| "nullable (Rep r) = True"

fun after :: "code_unit \<Rightarrow> regex \<Rightarrow> regex" where
  "after c Fail = Fail"
| "after c Eps = Fail"
| "after c (Cls P) = (if P c then Eps else Fail)"
| "after c (Alt r s) = Alt (after c r) (after c s)"
| "after c (Seq r s) =
     (if nullable r then Alt (Seq (after c r) s) (after c s) else Seq (after c r) s)"
| "after c (Rep r) = Seq (after c r) (Rep r)"

fun regex_test :: "regex \<Rightarrow> jsstring \<Rightarrow> bool" where
  "regex_test r [] = nullable r"
| "regex_test r (c # cs) = regex_test (after c r) cs"

text \<open>\<open>r+\<close> and \<open>r{2,}\<close>.\<close>

definition one_or_more :: "regex \<Rightarrow> regex" where
  "one_or_more r = Seq r (Rep r)"

definition two_or_more :: "regex \<Rightarrow> regex" where
  "two_or_more r = Seq r (Seq r (Rep r))"

text \<open>What a regular expression denotes, independently of how it is matched.\<close>

inductive denotes :: "regex \<Rightarrow> jsstring \<Rightarrow> bool" where
  d_eps: "denotes Eps []"
| d_cls: "P c \<Longrightarrow> denotes (Cls P) [c]"
| d_alt1: "denotes r w \<Longrightarrow> denotes (Alt r s) w"
| d_alt2: "denotes s w \<Longrightarrow> denotes (Alt r s) w"
| d_seq: "denotes r u \<Longrightarrow> denotes s v \<Longrightarrow> denotes (Seq r s) (u @ v)"
| d_rep0: "denotes (Rep r) []"
| d_rep: "denotes r u \<Longrightarrow> denotes (Rep r) v \<Longrightarrow> denotes (Rep r) (u @ v)"

subsection \<open>Utils.isValidEmail\<close>

text \<open>\<open>[^\s@]\<close>\<close>

definition notSpaceAt :: "code_unit \<Rightarrow> bool" where
  "notSpaceAt c = (\<not> isWhiteSpace c \<and> c \<noteq> of_char CHR ''@'')"

text \<open>\<open>/^[^\s@]+@[^\s@]+\.[^\s@]{2,}$/\<close>\<close>

definition email_re :: regex where
  "email_re =
     Seq (one_or_more (Cls notSpaceAt))
       (Seq (Cls (\<lambda>c. c = of_char CHR ''@''))
          (Seq (one_or_more (Cls notSpaceAt))
             (Seq (Cls (\<lambda>c. c = of_char CHR ''.''))
                (two_or_more (Cls notSpaceAt)))))"

definition trim :: "jsstring \<Rightarrow> jsstring" where
  "trim s = rev (dropWhile isWhiteSpace (rev (dropWhile isWhiteSpace s)))"

definition isValidEmail :: "jsstring \<Rightarrow> bool" where
  "isValidEmail email = regex_test email_re (trim email)"

text \<open>
  The shape the specification describes: \<open>local@domain.tld\<close> with at least 2
  characters after the last dot of the domain.
\<close>

definition after_last_dot :: "jsstring \<Rightarrow> jsstring" where
  "after_last_dot s = rev (takeWhile (\<lambda>c. c \<noteq> of_char CHR ''.'') (rev s))"

definition spec_email_shape :: "jsstring \<Rightarrow> bool" where
  "spec_email_shape s =
     (let loc = takeWhile (\<lambda>c. c \<noteq> of_char CHR ''@'') s;
          dm = drop (Suc (length loc)) s;
          tld = after_last_dot dm
      in loc \<noteq> [] \<and> length loc < length s \<and> list_all notSpaceAt loc \<and> list_all notSpaceAt dm \<and>
         of_char CHR ''.'' \<in> set dm \<and> 2 \<le> length tld \<and> Suc (length tld) < length dm)"

subsection \<open>SubscribeForm\<close>

text \<open>The elements the form module holds: the input, its wrapper, the message line
  and the submit button with its label.\<close>

record form =
  emailValue :: jsstring
  focused :: bool
  wrapClasses :: "jsstring list"
  msgText :: jsstring
  msgClasses :: "jsstring list"
  btnDisabled :: bool
  btnText :: jsstring

definition setMessage :: "jsstring \<Rightarrow> jsstring \<Rightarrow> form \<Rightarrow> form" where
  "setMessage text type s =
     (let s1 = s\<lparr>msgText := text, msgClasses := [js ''subscribe-form__message'']\<rparr>
      in if type \<noteq> []
         then s1\<lparr>msgClasses := classList_add (js ''is-visible'')
                                 (classList_add (js ''is-'' @ type) (msgClasses s1))\<rparr>
         else s1\<lparr>msgClasses := classList_remove (js ''is-visible'') (msgClasses s1)\<rparr>)"

definition resetState :: "form \<Rightarrow> form" where
  "resetState s =
     setMessage [] []
       (s\<lparr>wrapClasses := classList_remove (js ''is-error'')
                            (classList_remove (js ''is-valid'') (wrapClasses s))\<rparr>)"

text \<open>How the promise of \<open>sendToApi\<close> settles: resolved with \<open>{ok, message}\<close>, or
  rejected.\<close>

datatype api_outcome = Resolved bool jsstring | Rejected

text \<open>The handler either returns at once, or is suspended at \<open>await sendToApi(email)\<close>.
  (\<open>e.preventDefault()\<close> changes nothing the module holds and is left out.)\<close>

datatype submit_step = Returned form | Awaiting jsstring form

definition validation_error :: "jsstring \<Rightarrow> form \<Rightarrow> form" where
  "validation_error text s =
     (setMessage text (js ''error'') (s\<lparr>wrapClasses := classList_add (js ''is-error'') (wrapClasses s)\<rparr>))
       \<lparr>focused := True\<rparr>"

definition onSubmit_start :: "form \<Rightarrow> submit_step" where
  "onSubmit_start s0 =
     (let s = resetState s0;
          email = trim (emailValue s)
      in if email = [] then Returned (validation_error (js ''Please enter your email address.'') s)
         else if \<not> isValidEmail email
         then Returned (validation_error (js ''Please enter a valid email address.'') s)
         else
           (let s1 = s\<lparr>btnDisabled := True, btnText := js ''Sending'' @ [0x2026]\<rparr>;
                s2 = setMessage (js ''Transmitting signal into the cosmos'' @ [0x2026]) [] s1
            in Awaiting email (s2\<lparr>msgClasses := classList_add (js ''is-visible'') (msgClasses s2)\<rparr>)))"

text \<open>The rest of the handler once the promise has settled: \<open>try\<close>, \<open>catch\<close>, \<open>finally\<close>.\<close>

definition onSubmit_settle :: "api_outcome \<Rightarrow> form \<Rightarrow> form" where
  "onSubmit_settle outcome s =
     (let s1 =
        (case outcome of
           Resolved ok message \<Rightarrow>
             if ok
             then (setMessage message (js ''success'')
                     (s\<lparr>wrapClasses := classList_add (js ''is-valid'') (wrapClasses s)\<rparr>))
                    \<lparr>emailValue := []\<rparr>
             else setMessage message (js ''error'')
                    (s\<lparr>wrapClasses := classList_add (js ''is-error'') (wrapClasses s)\<rparr>)
         | Rejected \<Rightarrow>
             setMessage (js ''Connection lost. Please check your network and retry.'') (js ''error'')
               (s\<lparr>wrapClasses := classList_add (js ''is-error'') (wrapClasses s)\<rparr>))
      in s1\<lparr>btnDisabled := False, btnText := js ''Notify Me''\<rparr>)"

text \<open>One submission attempt from the event to the end of the handler, with
  \<open>sendToApi\<close> given by how its promise settles for each email.\<close>

definition onSubmit :: "(jsstring \<Rightarrow> api_outcome) \<Rightarrow> form \<Rightarrow> form" where
  "onSubmit sendToApi s =
     (case onSubmit_start s of
        Returned s' \<Rightarrow> s'
      | Awaiting email s' \<Rightarrow> onSubmit_settle (sendToApi email) s')"

text \<open>The repository's own \<open>sendToApi\<close>: resolves after 1400 ms, successfully when the
  random draw \<open>r\<close> exceeds 0.05; it never rejects.\<close>

definition sendToApi :: "real \<Rightarrow> jsstring \<Rightarrow> api_outcome" where
  "sendToApi r email =
     (let success = (nearest (5 / 100) < r)
      in Resolved success
           (if success
            then js ''You'' @ [0x27] @ js ''re on the list! We'' @ [0x27] @ js ''ll notify '' @ email @
                 js '' at launch. '' @ [0xD83D, 0xDE80]
            else js ''Oops '' @ [0x2014] @ js '' something went wrong. Please try again.''))"

text \<open>A form whose button is labelled \<open>Subscribe\<close> in the markup, with a valid address
  typed in; and the same form with the label \<open>Notify Me\<close>.\<close>

definition subscribe_form :: form where
  "subscribe_form =
     \<lparr>emailValue = js ''a@b.co'', focused = False, wrapClasses = [js ''subscribe-form__field''],
      msgText = [], msgClasses = [js ''subscribe-form__message''], btnDisabled = False,
      btnText = js ''Subscribe''\<rparr>"

definition notify_form :: form where
  "notify_form = subscribe_form\<lparr>btnText := js ''Notify Me''\<rparr>"


section \<open>Properties of countdown.js\<close>

subsection \<open>What one tick does\<close>

lemma pad2_NaN: "pad2 NaNV = js ''NaN''"
  by (simp add: pad2_def padStart_def js_def)

lemma tick_running_prev:
  assumes "\<not> js_le_zero (js_sub tv (IntV now))"
  shows "prev_of el (prev (tick tv now c)) = computed tv now el"
  using assms
  by (cases el) (simp_all add: computed.simps tick_def Let_def updateDigit_def triggerFlip_def setText_def split: prod.splits)

lemma tick_running_text:
  assumes "\<not> js_le_zero (js_sub tv (IntV now))"
  shows "textContent (tick tv now c) el =
     (if strict_neq (computed tv now el) (prev_of el (prev c)) then pad2 (computed tv now el)
      else textContent c el)"
  using assms
  by (cases el) (simp_all add: computed.simps tick_def Let_def updateDigit_def triggerFlip_def setText_def split: prod.splits)

lemma tick_running_classes:
  assumes "\<not> js_le_zero (js_sub tv (IntV now))"
  shows "classList (tick tv now c) el =
     (if strict_neq (computed tv now el) (prev_of el (prev c))
      then classList_add (js ''is-flipping'') (classList_remove (js ''is-flipping'') (classList c el))
      else classList c el)"
  using assms
  by (cases el) (simp_all add: computed.simps tick_def Let_def updateDigit_def triggerFlip_def setText_def split: prod.splits)

lemma tick_running_trace:
  assumes "\<not> js_le_zero (js_sub tv (IntV now))"
  shows "trace (tick tv now c) =
     trace c @ upd_ops tv now c DaysEl @ upd_ops tv now c HoursEl @ upd_ops tv now c MinsEl @ upd_ops tv now c SecsEl"
  using assms
  by (simp add: computed.simps tick_def Let_def updateDigit_def triggerFlip_def setText_def upd_ops_def mutation_def split: prod.splits)

lemma tick_running_rest:
  assumes "\<not> js_le_zero (js_sub tv (IntV now))"
  shows "timers (tick tv now c) = timers c" "intervalId (tick tv now c) = intervalId c"
    "ariaLabel (tick tv now c) = ariaLabel c" "nextHandle (tick tv now c) = nextHandle c"
  using assms
  by (simp_all add: computed.simps tick_def Let_def updateDigit_def triggerFlip_def setText_def split: prod.splits)

lemma ops_on_upd: "ops_on el (upd_ops tv now c el') = (if el' = el then upd_ops tv now c el else [])"
  by (simp add: ops_on_def upd_ops_def mutation_def)

lemma tick_running_new_ops:
  assumes "\<not> js_le_zero (js_sub tv (IntV now))"
  shows "ops_on el (new_ops c (tick tv now c)) = upd_ops tv now c el"
  unfolding new_ops_def tick_running_trace[OF assms]
  by (cases el) (simp_all add: ops_on_def upd_ops_def mutation_def)

lemma js_rem_nonneg: "0 \<le> a \<Longrightarrow> 0 \<le> k \<Longrightarrow> js_rem (IntV a) k = IntV (a mod k)"
  by (cases "a = 0") simp_all

lemma computed_int:
  assumes "now < t"
  shows "computed (IntV t) now DaysEl = IntV (((t - now) div 1000) div 86400)"
    "computed (IntV t) now HoursEl = IntV ((((t - now) div 1000) mod 86400) div 3600)"
    "computed (IntV t) now MinsEl = IntV ((((t - now) div 1000) mod 3600) div 60)"
    "computed (IntV t) now SecsEl = IntV (((t - now) div 1000) mod 60)"
proof -
  have "0 \<le> (t - now) div 1000" using assms by simp
  then show "computed (IntV t) now DaysEl = IntV (((t - now) div 1000) div 86400)"
    "computed (IntV t) now HoursEl = IntV ((((t - now) div 1000) mod 86400) div 3600)"
    "computed (IntV t) now MinsEl = IntV ((((t - now) div 1000) mod 3600) div 60)"
    "computed (IntV t) now SecsEl = IntV (((t - now) div 1000) mod 60)"
    by (simp_all add: computed.simps js_rem_nonneg del: js_rem.simps)
qed

lemma computed_nonneg:
  assumes "now < t"
  shows "\<exists>k. computed (IntV t) now el = IntV k \<and> 0 \<le> k"
proof -
  have h: "0 \<le> (t - now) div 1000" using assms by simp
  show ?thesis
  proof (cases el)
    case DaysEl
    then show ?thesis using h by (simp add: computed_int[OF assms] pos_imp_zdiv_nonneg_iff)
  next
    case HoursEl
    then show ?thesis by (simp add: computed_int[OF assms] pos_imp_zdiv_nonneg_iff)
  next
    case MinsEl
    then show ?thesis by (simp add: computed_int[OF assms] pos_imp_zdiv_nonneg_iff)
  next
    case SecsEl
    then show ?thesis by (simp add: computed_int[OF assms])
  qed
qed

lemma running_int: "now < t \<Longrightarrow> \<not> js_le_zero (js_sub (IntV t) (IntV now))"
  by simp

lemma init_present:
  "init True True tv now c =
     (let c1 = tick tv now (declare_locals c)
      in c1\<lparr>timers := insert (nextHandle c1) (timers c1), nextHandle := Suc (nextHandle c1),
             trace := trace c1 @ [SetInterval (nextHandle c1)], intervalId := Some (nextHandle c1)\<rparr>)"
  by (simp add: init_def setInterval_def Let_def)

lemma declare_locals_simps [simp]:
  "prev_of el (prev (declare_locals c)) = IntV (- 1)"
  "intervalId (declare_locals c) = None"
  "textContent (declare_locals c) = textContent c"
  "classList (declare_locals c) = classList c"
  "timers (declare_locals c) = timers c"
  "nextHandle (declare_locals c) = nextHandle c"
  "trace (declare_locals c) = trace c"
  "ariaLabel (declare_locals c) = ariaLabel c"
  by (cases el) (simp_all add: declare_locals_def)

lemma init_text_running:
  assumes "now < t"
  shows "textContent (init True True (IntV t) now c) el = pad2 (computed (IntV t) now el)"
proof -
  obtain k where k: "computed (IntV t) now el = IntV k" "0 \<le> k"
    using computed_nonneg[OF assms] by blast
  have "textContent (init True True (IntV t) now c) el = textContent (tick (IntV t) now (declare_locals c)) el"
    by (simp add: init_present Let_def)
  also have "\<dots> = pad2 (computed (IntV t) now el)"
    unfolding tick_running_text[OF running_int[OF assms]] declare_locals_simps k
    using k(2) by simp
  finally show ?thesis .
qed

lemma init_prev_running:
  assumes "now < t"
  shows "prev_of el (prev (init True True (IntV t) now c)) = computed (IntV t) now el"
proof -
  have "prev (init True True (IntV t) now c) = prev (tick (IntV t) now (declare_locals c))"
    by (simp add: init_present Let_def)
  then show ?thesis
    by (simp only: tick_running_prev[OF running_int[OF assms]])
qed

lemma tick_finished:
  assumes "js_le_zero (js_sub tv (IntV now))"
  shows "textContent (tick tv now c) = (\<lambda>_. js ''00'')"
    and "ariaLabel (tick tv now c) = Some (js ''We have launched!'')"
    and "timers (tick tv now c) = (case intervalId c of None \<Rightarrow> timers c | Some h \<Rightarrow> timers c - {h})"
    and "new_ops c (tick tv now c) =
      [ClearInterval (intervalId c), SetText SecsEl (js ''00''), SetText MinsEl (js ''00''),
       SetText HoursEl (js ''00''), SetText DaysEl (js ''00''),
       SetAttribute (js ''aria-label'') (js ''We have launched!'')]"
    and "prev (tick tv now c) = prev c" and "intervalId (tick tv now c) = intervalId c"
    and "nextHandle (tick tv now c) = nextHandle c" and "classList (tick tv now c) = classList c"
proof -
  show "textContent (tick tv now c) = (\<lambda>_. js ''00'')"
  proof
    fix el show "textContent (tick tv now c) el = js ''00''"
      using assms by (cases el) (simp_all add: tick_def Let_def clearInterval_def setText_def split: option.splits)
  qed
qed (use assms in \<open>simp_all add: tick_def Let_def clearInterval_def setText_def new_ops_def split: option.splits\<close>)

text \<open>A tick fired by the schedule that finds the target reached ends the schedule.\<close>
lemma scheduled_finish_is_terminal:
  assumes "js_le_zero (js_sub tv (IntV now))" and "intervalId c = Some h" and "timers c \<subseteq> {h}"
  shows "timers (tick tv now c) = {}" and "timer_fires tv' now' (tick tv now c) = None"
    and "session later (tick tv now c) = tick tv now c"
proof -
  show t: "timers (tick tv now c) = {}"
    using assms by (auto simp: tick_finished(3))
  then show f: "timer_fires tv' now' (tick tv now c) = None" for tv' now'
    by (simp add: timer_fires_def)
  show "session later (tick tv now c) = tick tv now c"
    by (cases later) (auto simp: f)
qed

lemma fresh_simps:
  "timers (fresh_page x) = {}" "nextHandle (fresh_page x) = 1" "intervalId (fresh_page x) = None"
  "trace (fresh_page x) = []" "ariaLabel (fresh_page x) = None" "textContent (fresh_page x) = x"
  by (simp_all add: fresh_page_def)

subsection \<open>The finished branch\<close>

text \<open>
  C2. The claim: at every tick with the target reached the schedule is cancelled, the
  four displays read \<open>00\<close>, the label is set, and no further tick occurs. For a tick
  fired by the schedule this holds (\<open>scheduled_finish_is_terminal\<close>). The tick that
  \<open>init\<close> runs itself departs from it: on a page opened after its target date the
  displays read \<open>00\<close>, but \<open>intervalId\<close> is still undefined, \<open>clearInterval\<close> cancels
  nothing, \<open>init\<close> then creates the interval, and one further tick runs a period later;
  only that tick ends the schedule.
\<close>

theorem first_tick_finish_keeps_schedule:
  "textContent launched_page = (\<lambda>_. js ''00'') \<and>
   trace launched_page ! 0 = ClearInterval None \<and>
   timers launched_page = {1} \<and>
   timer_fires (IntV 1000) 3000 launched_page = Some (tick (IntV 1000) 3000 launched_page) \<and>
   session [(IntV 1000, 3000)] launched_page \<noteq> launched_page \<and>
   timers (session [(IntV 1000, 3000)] launched_page) = {}"
proof -
  have le: "js_le_zero (js_sub (IntV 1000) (IntV 2000))" by simp
  have le3: "js_le_zero (js_sub (IntV 1000) (IntV 3000))" by simp
  have 1: "textContent launched_page = (\<lambda>_. js ''00'')"
    by (simp add: launched_page_def init_present Let_def tick_finished(1)[OF le])
  have tr: "trace (tick (IntV 1000) 2000 (declare_locals (fresh_page (\<lambda>_. js ''--'')))) =
       [ClearInterval None, SetText SecsEl (js ''00''), SetText MinsEl (js ''00''),
       SetText HoursEl (js ''00''), SetText DaysEl (js ''00''),
       SetAttribute (js ''aria-label'') (js ''We have launched!'')]"
    using tick_finished(4)[OF le, of "declare_locals (fresh_page (\<lambda>_. js ''--''))"]
    by (simp add: new_ops_def fresh_simps)
  have 2: "trace launched_page ! 0 = ClearInterval None"
    by (simp add: launched_page_def init_present Let_def tr)
  have 3: "timers launched_page = {1}"
    by (simp add: launched_page_def init_present Let_def tick_finished[OF le] fresh_simps)
  have 4: "timer_fires (IntV 1000) 3000 launched_page = Some (tick (IntV 1000) 3000 launched_page)"
    by (simp add: timer_fires_def 3)
  have "timers (tick (IntV 1000) 3000 launched_page) \<noteq> timers launched_page"
    unfolding tick_finished(3)[OF le3] 3
    by (simp add: launched_page_def init_present Let_def tick_finished(7)[OF le] fresh_simps)
  then have "tick (IntV 1000) 3000 launched_page \<noteq> launched_page" by auto
  then have 5: "session [(IntV 1000, 3000)] launched_page \<noteq> launched_page"
    by (simp add: 4)
  have "timers (tick (IntV 1000) 3000 launched_page) = {}"
    unfolding tick_finished(3)[OF le3] 3
    by (simp add: launched_page_def init_present Let_def tick_finished(7)[OF le] fresh_simps)
  then have 6: "timers (session [(IntV 1000, 3000)] launched_page) = {}"
    by (simp add: 4)
  from 1 2 3 4 5 6 show ?thesis by blast
qed


subsection \<open>The running branch\<close>

lemma prev_vals_eq:
  "p = \<lparr>p_d = prev_of DaysEl p, p_h = prev_of HoursEl p, p_m = prev_of MinsEl p, p_s = prev_of SecsEl p\<rparr>"
  by simp

lemma pad2_one: "pad2 (IntV 1) = js ''01''"
  by (simp add: pad2_def padStart_def js_def decimal.simps digit_unit_def)

lemma computed_NaN: "computed NaNV now el = NaNV"
  by (cases el) (simp_all add: computed.simps)

lemma running_cases:
  assumes "\<not> js_le_zero (js_sub tv (IntV now))"
  shows "computed tv now el = NaNV \<or> (\<exists>k. computed tv now el = IntV k \<and> 0 \<le> k)"
proof (cases tv)
  case (IntV t)
  with assms have "now < t" by simp
  from computed_nonneg[OF this] IntV show ?thesis by simp
next
  case NaNV
  then show ?thesis by (simp add: computed_NaN)
qed

lemma strict_neq_iff: "strict_neq a b \<longleftrightarrow> (a \<noteq> b \<or> a = NaNV)"
  by (cases a; cases b) simp_all

lemma running_not_initial:
  assumes "\<not> js_le_zero (js_sub tv (IntV now))"
  shows "strict_neq (computed tv now el) (IntV (- 1))"
  using running_cases[OF assms, of el] by auto

lemma tick_running_shows:
  assumes run: "\<not> js_le_zero (js_sub tv (IntV now))" and sh: "shown c el"
  shows "textContent (tick tv now c) el = pad2 (computed tv now el)"
proof (cases "strict_neq (computed tv now el) (prev_of el (prev c))")
  case True
  then show ?thesis by (simp add: tick_running_text[OF run])
next
  case False
  then have eq: "computed tv now el = prev_of el (prev c)"
    by (simp add: strict_neq_iff)
  with False running_not_initial[OF run, of el] have "prev_of el (prev c) \<noteq> IntV (- 1)"
    by auto
  with sh have "textContent c el = pad2 (prev_of el (prev c))" by (simp add: shown_def)
  with False eq show ?thesis by (simp add: tick_running_text[OF run])
qed

lemma flipping_added: "js ''is-flipping'' \<in> set (classList_add (js ''is-flipping'') cs)"
  by (simp add: classList_add_def)

lemma fresh_shown: "shown (fresh_page x) el"
  by (cases el) (simp_all add: shown_def fresh_page_def)

lemma pad2_zero: "pad2 (IntV 0) = js ''00''"
  by (simp add: pad2_def padStart_def js_def decimal.simps digit_unit_def)

lemma tick_running_shown:
  assumes run: "\<not> js_le_zero (js_sub tv (IntV now))" and sh: "shown c el"
  shows "shown (tick tv now c) el"
  using tick_running_shows[OF run sh] by (simp add: shown_def tick_running_prev[OF run])

lemma tick_first_shown: "shown (tick tv now (declare_locals c)) el"
proof (cases "js_le_zero (js_sub tv (IntV now))")
  case True
  have "prev_of el (prev (tick tv now (declare_locals c))) = IntV (- 1)"
    unfolding tick_finished(5)[OF True] by simp
  then show ?thesis by (simp add: shown_def)
next
  case False
  have "shown (declare_locals c) el" by (simp add: shown_def)
  from tick_running_shown[OF False this] show ?thesis .
qed

lemma tick_first_timers: "timers (tick tv now (declare_locals c)) = timers c"
proof (cases "js_le_zero (js_sub tv (IntV now))")
  case True
  then show ?thesis by (simp add: tick_finished(3)[OF True])
next
  case False
  then show ?thesis by (simp add: tick_running_rest(1)[OF False])
qed

text \<open>What holds of a page for as long as its timer is there to fire: every display
  shows what \<open>prev\<close> stores for it, and the timer is the one \<open>intervalId\<close> names.\<close>

lemma init_scheduled:
  "\<forall>el. shown (init True True tv now (fresh_page texts)) el"
  "\<exists>h. intervalId (init True True tv now (fresh_page texts)) = Some h \<and>
       timers (init True True tv now (fresh_page texts)) \<subseteq> {h}"
proof -
  show "\<forall>el. shown (init True True tv now (fresh_page texts)) el"
    using tick_first_shown[of tv now "fresh_page texts"]
    by (simp add: init_present Let_def shown_def)
  show "\<exists>h. intervalId (init True True tv now (fresh_page texts)) = Some h \<and>
       timers (init True True tv now (fresh_page texts)) \<subseteq> {h}"
    by (simp add: init_present Let_def tick_first_timers fresh_simps)
qed

lemma session_scheduled:
  assumes "timers c = {} \<or> ((\<forall>el. shown c el) \<and> (\<exists>h. intervalId c = Some h \<and> timers c \<subseteq> {h}))"
  shows "timers (session ticks c) = {} \<or>
     ((\<forall>el. shown (session ticks c) el) \<and>
      (\<exists>h. intervalId (session ticks c) = Some h \<and> timers (session ticks c) \<subseteq> {h}))"
  using assms
proof (induction ticks arbitrary: c)
  case Nil
  then show ?case by simp
next
  case (Cons p ticks)
  obtain tv now where p: "p = (tv, now)" by (cases p)
  show ?case
  proof (cases "timers c = {}")
    case True
    then show ?thesis by (simp add: p timer_fires_def)
  next
    case False
    with Cons.prems obtain h where sh: "\<forall>el. shown c el" and h: "intervalId c = Some h" "timers c \<subseteq> {h}"
      by blast
    have f: "session (p # ticks) c = session ticks (tick tv now c)"
      using False by (simp add: p timer_fires_def)
    have "timers (tick tv now c) = {} \<or>
      ((\<forall>el. shown (tick tv now c) el) \<and> (\<exists>h. intervalId (tick tv now c) = Some h \<and> timers (tick tv now c) \<subseteq> {h}))"
    proof (cases "js_le_zero (js_sub tv (IntV now))")
      case True
      from scheduled_finish_is_terminal(1)[OF True h] show ?thesis by simp
    next
      case run: False
      have "\<forall>el. shown (tick tv now c) el" using sh tick_running_shown[OF run] by blast
      then show ?thesis using h by (simp add: tick_running_rest[OF run])
    qed
    from Cons.IH[OF this] show ?thesis unfolding f .
  qed
qed

lemma later_tick_shows:
  assumes "timer_fires tv now (session earlier (init True True tv0 now0 (fresh_page texts))) = Some c'"
    and run: "\<not> js_le_zero (js_sub tv (IntV now))"
  shows "textContent c' el = pad2 (computed tv now el)" and "prev_of el (prev c') = computed tv now el"
proof -
  let ?c = "session earlier (init True True tv0 now0 (fresh_page texts))"
  from assms(1) have t: "timers ?c \<noteq> {}" and c': "c' = tick tv now ?c"
    by (auto simp: timer_fires_def split: if_splits)
  from init_scheduled[of tv0 now0 texts]
  have "timers (init True True tv0 now0 (fresh_page texts)) = {} \<or>
     ((\<forall>el. shown (init True True tv0 now0 (fresh_page texts)) el) \<and>
      (\<exists>h. intervalId (init True True tv0 now0 (fresh_page texts)) = Some h \<and>
           timers (init True True tv0 now0 (fresh_page texts)) \<subseteq> {h}))"
    by blast
  from session_scheduled[OF this, of earlier] t have "shown ?c el" by blast
  from tick_running_shows[OF run this] show "textContent c' el = pad2 (computed tv now el)"
    by (simp add: c')
  show "prev_of el (prev c') = computed tv now el"
    unfolding c' by (rule tick_running_prev[OF run])
qed

text \<open>
  C1. In a running tick with \<open>R\<close> whole seconds remaining, the stored and rendered
  components are \<open>R div 86400\<close>, \<open>(R mod 86400) div 3600\<close>, \<open>(R mod 3600) div 60\<close> and
  \<open>R mod 60\<close>, by floored division: they are what \<open>prev\<close> holds after the tick, what the
  four displays read after the tick that \<open>init\<close> runs, what they read after a tick on any
  page whose displays show what \<open>prev\<close> stores, and so what they read after every later
  tick of a page session, whatever ticks went before. \<open>R = 90061\<close> gives 1 day, 1 hour,
  1 minute, 1 second.
\<close>

theorem countdown_decomposition:
  assumes "now < t" and "R = (t - now) div 1000"
  shows "prev (tick (IntV t) now c) =
           \<lparr>p_d = IntV (R div 86400), p_h = IntV ((R mod 86400) div 3600),
            p_m = IntV ((R mod 3600) div 60), p_s = IntV (R mod 60)\<rparr> \<and>
         textContent (init True True (IntV t) now c) DaysEl = pad2 (IntV (R div 86400)) \<and>
         textContent (init True True (IntV t) now c) HoursEl = pad2 (IntV ((R mod 86400) div 3600)) \<and>
         textContent (init True True (IntV t) now c) MinsEl = pad2 (IntV ((R mod 3600) div 60)) \<and>
         textContent (init True True (IntV t) now c) SecsEl = pad2 (IntV (R mod 60)) \<and>
         ((\<forall>el. shown c el) \<longrightarrow>
            textContent (tick (IntV t) now c) DaysEl = pad2 (IntV (R div 86400)) \<and>
            textContent (tick (IntV t) now c) HoursEl = pad2 (IntV ((R mod 86400) div 3600)) \<and>
            textContent (tick (IntV t) now c) MinsEl = pad2 (IntV ((R mod 3600) div 60)) \<and>
            textContent (tick (IntV t) now c) SecsEl = pad2 (IntV (R mod 60)) \<and>
            (\<forall>el. shown (tick (IntV t) now c) el)) \<and>
         (timer_fires (IntV t) now (session earlier (init True True tv0 now0 (fresh_page texts))) = Some c' \<longrightarrow>
            textContent c' DaysEl = pad2 (IntV (R div 86400)) \<and>
            textContent c' HoursEl = pad2 (IntV ((R mod 86400) div 3600)) \<and>
            textContent c' MinsEl = pad2 (IntV ((R mod 3600) div 60)) \<and>
            textContent c' SecsEl = pad2 (IntV (R mod 60)) \<and>
            prev c' = \<lparr>p_d = IntV (R div 86400), p_h = IntV ((R mod 86400) div 3600),
                       p_m = IntV ((R mod 3600) div 60), p_s = IntV (R mod 60)\<rparr>) \<and>
         (R = 90061 \<longrightarrow>
            prev (tick (IntV t) now c) = \<lparr>p_d = IntV 1, p_h = IntV 1, p_m = IntV 1, p_s = IntV 1\<rparr>)"
proof -
  note run = running_int[OF assms(1)]
  have p: "prev (tick (IntV t) now c) =
           \<lparr>p_d = IntV (R div 86400), p_h = IntV ((R mod 86400) div 3600),
            p_m = IntV ((R mod 3600) div 60), p_s = IntV (R mod 60)\<rparr>"
    by (subst prev_vals_eq) (simp only: tick_running_prev[OF run] computed_int[OF assms(1)] assms(2))
  have tx: "textContent (init True True (IntV t) now c) DaysEl = pad2 (IntV (R div 86400))"
    "textContent (init True True (IntV t) now c) HoursEl = pad2 (IntV ((R mod 86400) div 3600))"
    "textContent (init True True (IntV t) now c) MinsEl = pad2 (IntV ((R mod 3600) div 60))"
    "textContent (init True True (IntV t) now c) SecsEl = pad2 (IntV (R mod 60))"
    by (simp_all only: init_text_running[OF assms(1)] computed_int[OF assms(1)] assms(2))
  have lt: "textContent (tick (IntV t) now c) DaysEl = pad2 (IntV (R div 86400)) \<and>
            textContent (tick (IntV t) now c) HoursEl = pad2 (IntV ((R mod 86400) div 3600)) \<and>
            textContent (tick (IntV t) now c) MinsEl = pad2 (IntV ((R mod 3600) div 60)) \<and>
            textContent (tick (IntV t) now c) SecsEl = pad2 (IntV (R mod 60)) \<and>
            (\<forall>el. shown (tick (IntV t) now c) el)" if sh: "\<forall>el. shown c el"
  proof -
    have s: "shown c el" for el using sh by simp
    have "textContent (tick (IntV t) now c) el = pad2 (computed (IntV t) now el)" for el
      by (rule tick_running_shows[OF run s])
    then show ?thesis
      using tick_running_shown[OF run s] by (simp add: computed_int[OF assms(1)] assms(2))
  qed
  have ss: "textContent c' DaysEl = pad2 (IntV (R div 86400)) \<and>
            textContent c' HoursEl = pad2 (IntV ((R mod 86400) div 3600)) \<and>
            textContent c' MinsEl = pad2 (IntV ((R mod 3600) div 60)) \<and>
            textContent c' SecsEl = pad2 (IntV (R mod 60)) \<and>
            prev c' = \<lparr>p_d = IntV (R div 86400), p_h = IntV ((R mod 86400) div 3600),
                       p_m = IntV ((R mod 3600) div 60), p_s = IntV (R mod 60)\<rparr>"
    if f: "timer_fires (IntV t) now (session earlier (init True True tv0 now0 (fresh_page texts))) = Some c'"
  proof -
    note L = later_tick_shows[OF f run]
    have "prev c' = \<lparr>p_d = IntV (R div 86400), p_h = IntV ((R mod 86400) div 3600),
                       p_m = IntV ((R mod 3600) div 60), p_s = IntV (R mod 60)\<rparr>"
      by (subst prev_vals_eq) (simp only: L(2) computed_int[OF assms(1)] assms(2))
    then show ?thesis
      by (simp add: L(1) computed_int[OF assms(1)] assms(2))
  qed
  have ex: "R = 90061 \<longrightarrow>
            prev (tick (IntV t) now c) = \<lparr>p_d = IntV 1, p_h = IntV 1, p_m = IntV 1, p_s = IntV 1\<rparr>"
    unfolding p by simp
  from p tx lt ss ex show ?thesis by blast
qed

lemma demo_session:
  "timer_fires (IntV 90061000) 1000 (session [] (init True True (IntV 90061000) 0 (fresh_page (\<lambda>_. js ''--''))))
     = Some (tick (IntV 90061000) 1000 (init True True (IntV 90061000) 0 (fresh_page (\<lambda>_. js ''--''))))"
  by (simp add: timer_fires_def init_present Let_def)

theorem countdown_decomposition_witness:
  "(0::int) < 90061000 \<and> (1000::int) < 90061000 \<and>
   prev (tick (IntV 90061000) 0 (fresh_page (\<lambda>_. js ''--''))) =
     \<lparr>p_d = IntV 1, p_h = IntV 1, p_m = IntV 1, p_s = IntV 1\<rparr> \<and>
   textContent (init True True (IntV 90061000) 0 (fresh_page (\<lambda>_. js ''--''))) DaysEl = js ''01'' \<and>
   textContent (init True True (IntV 90061000) 0 (fresh_page (\<lambda>_. js ''--''))) HoursEl = js ''01'' \<and>
   textContent (init True True (IntV 90061000) 0 (fresh_page (\<lambda>_. js ''--''))) MinsEl = js ''01'' \<and>
   textContent (init True True (IntV 90061000) 0 (fresh_page (\<lambda>_. js ''--''))) SecsEl = js ''01'' \<and>
   (\<forall>el. shown (fresh_page (\<lambda>_. js ''--'')) el) \<and>
   textContent demo_page2 DaysEl = js ''01'' \<and> textContent demo_page2 SecsEl = js ''00'' \<and>
   (\<exists>c'. timer_fires (IntV 90061000) 1000
            (session [] (init True True (IntV 90061000) 0 (fresh_page (\<lambda>_. js ''--'')))) = Some c' \<and>
         textContent c' DaysEl = js ''01'' \<and> textContent c' HoursEl = js ''01'' \<and>
         textContent c' MinsEl = js ''01'' \<and> textContent c' SecsEl = js ''00'')"
proof -
  note A = countdown_decomposition [of 0 90061000 90061 "fresh_page (\<lambda>_. js ''--'')" "[]" "IntV 0" 0 "\<lambda>_. js ''--''" "fresh_page (\<lambda>_. js ''--'')"]
  have a: "prev (tick (IntV 90061000) 0 (fresh_page (\<lambda>_. js ''--''))) =
     \<lparr>p_d = IntV 1, p_h = IntV 1, p_m = IntV 1, p_s = IntV 1\<rparr> \<and>
   textContent (init True True (IntV 90061000) 0 (fresh_page (\<lambda>_. js ''--''))) DaysEl = js ''01'' \<and>
   textContent (init True True (IntV 90061000) 0 (fresh_page (\<lambda>_. js ''--''))) HoursEl = js ''01'' \<and>
   textContent (init True True (IntV 90061000) 0 (fresh_page (\<lambda>_. js ''--''))) MinsEl = js ''01'' \<and>
   textContent (init True True (IntV 90061000) 0 (fresh_page (\<lambda>_. js ''--''))) SecsEl = js ''01''"
    using A by (simp add: pad2_one)
  have sh: "\<forall>el. shown demo_page1 el"
    using A fresh_shown by (simp add: demo_page1_def)
  note B = countdown_decomposition [of 1000 90061000 90060 demo_page1 "[]" "IntV 90061000" 0 "\<lambda>_. js ''--''"
      "tick (IntV 90061000) 1000 (init True True (IntV 90061000) 0 (fresh_page (\<lambda>_. js ''--'')))"]
  have b: "textContent demo_page2 DaysEl = js ''01'' \<and> textContent demo_page2 SecsEl = js ''00''"
    using B sh by (simp add: demo_page2_def pad2_one pad2_zero)
  have c: "textContent (tick (IntV 90061000) 1000 (init True True (IntV 90061000) 0 (fresh_page (\<lambda>_. js ''--'')))) DaysEl = js ''01'' \<and>
           textContent (tick (IntV 90061000) 1000 (init True True (IntV 90061000) 0 (fresh_page (\<lambda>_. js ''--'')))) HoursEl = js ''01'' \<and>
           textContent (tick (IntV 90061000) 1000 (init True True (IntV 90061000) 0 (fresh_page (\<lambda>_. js ''--'')))) MinsEl = js ''01'' \<and>
           textContent (tick (IntV 90061000) 1000 (init True True (IntV 90061000) 0 (fresh_page (\<lambda>_. js ''--'')))) SecsEl = js ''00''"
    using B demo_session by (simp add: pad2_one pad2_zero)
  from a b c demo_session fresh_shown show ?thesis by simp
qed


text \<open>
  The update policy over two consecutive running ticks, for one of the four elements;
  \<open>v1\<close> and \<open>v2\<close> are the values computed for it. After the first tick the element shows
  \<open>v1\<close>. The second tick mutates the element (text rewritten, class removed, reflow,
  class added) exactly when \<open>v2 !== v1\<close>, which for numbers is when the value differs;
  otherwise no operation touches the element.
\<close>

theorem digit_mutated_iff_value_changed:
  assumes r1: "\<not> js_le_zero (js_sub tv1 (IntV n1))" and r2: "\<not> js_le_zero (js_sub tv2 (IntV n2))"
    and sh: "shown c0 el"
    and c1: "c1 = tick tv1 n1 c0" and c2: "c2 = tick tv2 n2 c1"
    and v1: "v1 = computed tv1 n1 el" and v2: "v2 = computed tv2 n2 el"
  shows "textContent c1 el = pad2 v1 \<and> prev_of el (prev c1) = v1 \<and>
     (strict_neq v2 v1 \<longleftrightarrow> (v2 \<noteq> v1 \<or> v2 = NaNV)) \<and>
     (strict_neq v2 v1 \<longrightarrow>
        ops_on el (new_ops c1 c2) = mutation el v2 \<and> textContent c2 el = pad2 v2 \<and>
        js ''is-flipping'' \<in> set (classList c2 el)) \<and>
     (\<not> strict_neq v2 v1 \<longrightarrow>
        ops_on el (new_ops c1 c2) = [] \<and> textContent c2 el = textContent c1 el \<and>
        classList c2 el = classList c1 el)"
proof -
  have a: "textContent c1 el = pad2 v1"
    unfolding c1 v1 by (rule tick_running_shows[OF r1 sh])
  have b: "prev_of el (prev c1) = v1"
    unfolding c1 v1 by (rule tick_running_prev[OF r1])
  have c: "strict_neq v2 v1 \<longleftrightarrow> (v2 \<noteq> v1 \<or> v2 = NaNV)"
    by (rule strict_neq_iff)
  have ops: "ops_on el (new_ops c1 c2) = (if strict_neq v2 v1 then mutation el v2 else [])"
    unfolding c2 tick_running_new_ops[OF r2] upd_ops_def b v2 ..
  have tx: "textContent c2 el = (if strict_neq v2 v1 then pad2 v2 else textContent c1 el)"
    unfolding c2 tick_running_text[OF r2] b v2 ..
  have cl: "classList c2 el = (if strict_neq v2 v1
      then classList_add (js ''is-flipping'') (classList_remove (js ''is-flipping'') (classList c1 el))
      else classList c1 el)"
    unfolding c2 tick_running_classes[OF r2] b v2 ..
  from a b c ops tx cl flipping_added show ?thesis by simp
qed

theorem digit_mutated_iff_value_changed_witness:
  "\<not> js_le_zero (js_sub (IntV 90061000) (IntV 0)) \<and>
   \<not> js_le_zero (js_sub (IntV 90061000) (IntV 1000)) \<and>
   shown (fresh_page (\<lambda>_. js ''--'')) SecsEl \<and>
   computed (IntV 90061000) 0 SecsEl = IntV 1 \<and> computed (IntV 90061000) 1000 SecsEl = IntV 0 \<and>
   textContent demo_page1 SecsEl = js ''01'' \<and>
   ops_on SecsEl (new_ops demo_page1 demo_page2) = mutation SecsEl (IntV 0) \<and>
   textContent demo_page2 SecsEl = js ''00'' \<and>
   computed (IntV 90061000) 0 DaysEl = IntV 1 \<and> computed (IntV 90061000) 1000 DaysEl = IntV 1 \<and>
   ops_on DaysEl (new_ops demo_page1 demo_page2) = [] \<and>
   textContent demo_page2 DaysEl = js ''01''"
proof -
  have r1: "\<not> js_le_zero (js_sub (IntV 90061000) (IntV 0))"
    and r2: "\<not> js_le_zero (js_sub (IntV 90061000) (IntV 1000))" by simp_all
  have s1: "computed (IntV 90061000) 0 SecsEl = IntV 1" "computed (IntV 90061000) 1000 SecsEl = IntV 0"
    and d1: "computed (IntV 90061000) 0 DaysEl = IntV 1" "computed (IntV 90061000) 1000 DaysEl = IntV 1"
    by (simp_all add: computed.simps)
  from digit_mutated_iff_value_changed [OF r1 r2 fresh_shown demo_page1_def demo_page2_def
      s1(1)[symmetric] s1(2)[symmetric]]
    digit_mutated_iff_value_changed [OF r1 r2 fresh_shown demo_page1_def demo_page2_def
      d1(1)[symmetric] d1(2)[symmetric]]
  show ?thesis
    using r1 r2 s1 d1 by (simp add: fresh_shown pad2_one pad2_zero)
qed

text \<open>
  C4. \<open>updateDigit\<close> is documented to update a digit element only when its value
  changes, and for numbers it does. It breaks that rule when the target date does not
  parse: at the second tick the days value is the same \<open>NaN\<close> that the first tick
  rendered, the text stays the same, and still the element is rewritten and its flip
  restarted, because \<open>NaN !== NaN\<close> holds.
\<close>

theorem nan_digit_rewritten_though_unchanged:
  "computed NaNV 1000 DaysEl = computed NaNV 0 DaysEl \<and>
   textContent nan_page1 DaysEl = pad2 (computed NaNV 0 DaysEl) \<and>
   textContent nan_page2 DaysEl = textContent nan_page1 DaysEl \<and>
   ops_on DaysEl (new_ops nan_page1 nan_page2) =
     [SetText DaysEl (js ''NaN''), ClassRemove DaysEl (js ''is-flipping''), Reflow DaysEl,
      ClassAdd DaysEl (js ''is-flipping'')]"
proof -
  have r: "\<not> js_le_zero (js_sub NaNV (IntV n))" for n by simp
  have 1: "textContent nan_page1 DaysEl = pad2 (computed NaNV 0 DaysEl)"
    unfolding nan_page1_def by (rule tick_running_shows[OF r fresh_shown])
  have 2: "textContent nan_page2 DaysEl = pad2 NaNV"
    unfolding nan_page2_def by (simp add: tick_running_text[OF r] computed_NaN)
  have 3: "ops_on DaysEl (new_ops nan_page1 nan_page2) = mutation DaysEl NaNV"
    unfolding nan_page2_def by (simp add: tick_running_new_ops[OF r] upd_ops_def computed_NaN)
  from 1 2 3 show ?thesis
    by (simp add: computed_NaN mutation_def pad2_NaN)
qed

subsection \<open>A target date that does not parse\<close>

lemma nan_tick:
  "textContent (tick NaNV now c) = (\<lambda>_. js ''NaN'')"
  "trace (tick NaNV now c) = trace c @ nan_ops"
  "timers (tick NaNV now c) = timers c"
  "ariaLabel (tick NaNV now c) = ariaLabel c"
  "nextHandle (tick NaNV now c) = nextHandle c"
proof -
  have r: "\<not> js_le_zero (js_sub NaNV (IntV now))" by simp
  show "textContent (tick NaNV now c) = (\<lambda>_. js ''NaN'')"
    by (rule ext) (simp add: tick_running_text[OF r] computed_NaN pad2_NaN)
  show "trace (tick NaNV now c) = trace c @ nan_ops"
    by (simp add: tick_running_trace[OF r] upd_ops_def computed_NaN nan_ops_def)
qed (simp_all add: tick_running_rest)

lemma nan_session:
  assumes "timers c \<noteq> {}"
  shows "timers (session (map (Pair NaNV) nows) c) = timers c \<and>
         trace (session (map (Pair NaNV) nows) c) = trace c @ concat (replicate (length nows) nan_ops) \<and>
         ariaLabel (session (map (Pair NaNV) nows) c) = ariaLabel c \<and>
         textContent (session (map (Pair NaNV) nows) c) = (if nows = [] then textContent c else (\<lambda>_. js ''NaN''))"
  using assms
proof (induction nows arbitrary: c)
  case Nil
  then show ?case by simp
next
  case (Cons n nows)
  have f: "timer_fires NaNV n c = Some (tick NaNV n c)"
    using Cons.prems by (simp add: timer_fires_def)
  have "timers (tick NaNV n c) \<noteq> {}" using Cons.prems by (simp add: nan_tick)
  from Cons.IH[OF this] show ?case
    by (simp add: f nan_tick)
qed

lemma length_nan_ops: "length nan_ops = 16"
  by (simp add: nan_ops_def mutation_def)

lemma no_clear_in_nan_ops: "ClearInterval h \<notin> set nan_ops"
  by (simp add: nan_ops_def mutation_def)

lemma length_concat_replicate: "length (concat (replicate n xs)) = n * length xs"
  by (induction n) simp_all

text \<open>
  C10. With a target date that parses to \<open>NaN\<close> the difference is \<open>NaN\<close> at every tick,
  the finished branch is not taken, \<open>init\<close> leaves all four displays reading \<open>NaN\<close>, and
  after any number of periods the timer is still there and fires again: every period
  ran a full tick, no \<open>clearInterval\<close> was ever called and the label was never set.
\<close>

theorem invalid_target_never_finishes:
  "js_sub NaNV (IntV now) = NaNV \<and> \<not> js_le_zero (js_sub NaNV (IntV now)) \<and>
   textContent (init True True NaNV now c) = (\<lambda>_. js ''NaN'') \<and>
   timers (session (map (Pair NaNV) nows) (init True True NaNV now c)) = insert (nextHandle c) (timers c) \<and>
   timer_fires NaNV now' (session (map (Pair NaNV) nows) (init True True NaNV now c)) \<noteq> None \<and>
   length (new_ops c (session (map (Pair NaNV) nows) (init True True NaNV now c))) = 16 * (length nows + 1) + 1 \<and>
   (\<forall>h. ClearInterval h \<notin> set (new_ops c (session (map (Pair NaNV) nows) (init True True NaNV now c)))) \<and>
   ariaLabel (session (map (Pair NaNV) nows) (init True True NaNV now c)) = ariaLabel c \<and>
   textContent (session (map (Pair NaNV) nows) (init True True NaNV now c)) = (\<lambda>_. js ''NaN'')"
proof -
  let ?i = "init True True NaNV now c"
  let ?s = "session (map (Pair NaNV) nows) ?i"
  have i: "textContent ?i = (\<lambda>_. js ''NaN'')" "timers ?i = insert (nextHandle c) (timers c)"
    "trace ?i = trace c @ nan_ops @ [SetInterval (nextHandle c)]" "ariaLabel ?i = ariaLabel c"
    by (simp_all add: init_present Let_def nan_tick)
  then have ne: "timers ?i \<noteq> {}" by simp
  note S = nan_session[OF ne, of nows]
  have tr: "new_ops c ?s = nan_ops @ [SetInterval (nextHandle c)] @ concat (replicate (length nows) nan_ops)"
    using S by (simp add: new_ops_def i)
  have 1: "timers ?s = insert (nextHandle c) (timers c)" using S i by simp
  have 2: "timer_fires NaNV now' ?s \<noteq> None" using 1 by (simp add: timer_fires_def)
  have 3: "length (new_ops c ?s) = 16 * (length nows + 1) + 1"
    unfolding tr by (simp add: length_nan_ops length_concat_replicate)
  have 4: "\<forall>h. ClearInterval h \<notin> set (new_ops c ?s)"
    unfolding tr by (auto simp: no_clear_in_nan_ops)
  have 5: "ariaLabel ?s = ariaLabel c" using S i by simp
  have 6: "textContent ?s = (\<lambda>_. js ''NaN'')" using S i by (cases nows) simp_all
  from i(1) 1 2 3 4 5 6 show ?thesis by simp
qed

section \<open>Properties of main.js\<close>

subsection \<open>Rounding to the nearest double\<close>

text \<open>Rounding to an integer stays within a half of its argument, does not cross an
  integer, and commutes with negation.\<close>

lemma rhe_bounds: "real_of_int (rhe q) \<le> q + 1 / 2" "q - 1 / 2 \<le> real_of_int (rhe q)"
  unfolding rhe_def Let_def by (auto; linarith)+

lemma rhe_ge_int: "real_of_int n \<le> q \<Longrightarrow> n \<le> rhe q"
  unfolding rhe_def Let_def by (auto simp: le_floor_iff; linarith)

lemma rhe_le_int: "q \<le> real_of_int n \<Longrightarrow> rhe q \<le> n"
  unfolding rhe_def Let_def by (auto; linarith)

lemma rhe_of_int [simp]: "rhe (of_int n) = n"
  by (simp add: rhe_def)

lemma rhe_minus: "rhe (- q) = - rhe q"
proof (cases "q = of_int \<lfloor>q\<rfloor>")
  case True
  then obtain n where "q = of_int n" ..
  then show ?thesis by (simp flip: of_int_minus)
next
  case False
  define f where "f = \<lfloor>q\<rfloor>"
  define r where "r = q - of_int f"
  have r: "0 < r" "r < 1" using False by (simp_all add: r_def f_def) linarith+
  have fl: "\<lfloor>- q\<rfloor> = - f - 1" unfolding f_def using False
    by (metis ceiling_altdef ceiling_def minus_diff_eq diff_minus_eq_add add.commute minus_minus)
  have r': "- q - of_int (- f - 1) = 1 - r" by (simp add: r_def)
  have 1: "rhe q = (if r < 1 / 2 then f else if 1 / 2 < r then f + 1 else if even f then f else f + 1)"
    by (simp add: rhe_def Let_def f_def r_def)
  have 2: "rhe (- q) = (if 1 - r < 1 / 2 then - f - 1 else if 1 / 2 < 1 - r then - f else if even (- f - 1) then - f - 1 else - f)"
    unfolding rhe_def Let_def fl r' by simp
  show ?thesis unfolding 1 2 by auto
qed

text \<open>The exponent brackets its argument between two powers of two.\<close>

lemma expo_bracket:
  assumes "x \<noteq> 0"
  shows "2 powi expo x \<le> \<bar>x\<bar>" and "\<bar>x\<bar> < 2 powi (expo x + 1)"
proof -
  have "2 powi expo x \<le> \<bar>x\<bar> \<and> \<bar>x\<bar> < 2 powi (expo x + 1)"
  proof (cases "1 \<le> \<bar>x\<bar>")
    case True
    define n where "n = \<lfloor>\<bar>x\<bar>\<rfloor>"
    have n: "0 < n" using True by (simp add: n_def)
    from bitlen_bounds[OF n] have b: "2 ^ nat (bitlen n - 1) \<le> n" "n < 2 ^ nat (bitlen n)" by simp_all
    have k: "1 \<le> bitlen n" using n by (simp add: bitlen_alt_def)
    have e: "expo x = bitlen n - 1" using True by (simp add: expo_def n_def)
    have "(2::real) ^ nat (bitlen n - 1) \<le> real_of_int n"
      using b(1) by (metis of_int_le_iff of_int_numeral of_int_power)
    also have "\<dots> \<le> \<bar>x\<bar>" by (simp add: n_def)
    finally have lo: "2 powi expo x \<le> \<bar>x\<bar>" using k by (simp add: e power_int_nonneg_exp)
    have "n + 1 \<le> 2 ^ nat (bitlen n)" using b(2) by simp
    then have "real_of_int (n + 1) \<le> (2::real) ^ nat (bitlen n)"
      by (metis of_int_le_iff of_int_numeral of_int_power)
    moreover have "\<bar>x\<bar> < real_of_int (n + 1)" by (simp add: n_def)
    ultimately have "\<bar>x\<bar> < 2 ^ nat (bitlen n)" by linarith
    then have hi: "\<bar>x\<bar> < 2 powi (expo x + 1)" using k by (simp add: e power_int_nonneg_exp)
    from lo hi show ?thesis ..
  next
    case False
    define y where "y = 1 / \<bar>x\<bar>"
    define m where "m = \<lceil>y\<rceil> - 1"
    have x: "0 < \<bar>x\<bar>" "\<bar>x\<bar> < 1" using assms False by simp_all
    then have y: "1 < y" by (simp add: y_def)
    then have m: "0 < m" by (simp add: m_def)
    from bitlen_bounds[OF m] have b: "2 ^ nat (bitlen m - 1) \<le> m" "m < 2 ^ nat (bitlen m)" by simp_all
    have k: "1 \<le> bitlen m" using m by (simp add: bitlen_alt_def)
    have e: "expo x = - bitlen m" using False by (simp add: expo_def m_def y_def)
    have "m + 1 \<le> 2 ^ nat (bitlen m)" using b(2) by simp
    then have "real_of_int (m + 1) \<le> (2::real) ^ nat (bitlen m)"
      by (metis of_int_le_iff of_int_numeral of_int_power)
    moreover have "y \<le> real_of_int (m + 1)" by (simp add: m_def)
    ultimately have "y \<le> 2 ^ nat (bitlen m)" by linarith
    then have "1 / 2 ^ nat (bitlen m) \<le> \<bar>x\<bar>"
      using x(1) by (simp add: y_def field_simps)
    then have lo: "2 powi expo x \<le> \<bar>x\<bar>"
      using k by (simp add: e power_int_minus power_int_nonneg_exp field_simps)
    have "(2::real) ^ nat (bitlen m - 1) \<le> real_of_int m"
      using b(1) by (metis of_int_le_iff of_int_numeral of_int_power)
    moreover have "real_of_int m < y" by (simp add: m_def) linarith
    ultimately have "2 ^ nat (bitlen m - 1) < y" by linarith
    then have "\<bar>x\<bar> < 1 / 2 ^ nat (bitlen m - 1)"
      using x(1) by (simp add: y_def field_simps)
    moreover have "(2::real) powi (expo x + 1) = 1 / 2 ^ nat (bitlen m - 1)"
    proof -
      have "expo x + 1 = - (bitlen m - 1)" by (simp add: e)
      then have "(2::real) powi (expo x + 1) = 1 / 2 powi (bitlen m - 1)"
        by (simp only: power_int_minus_divide)
      also have "(2::real) powi (bitlen m - 1) = 2 ^ nat (bitlen m - 1)"
        using k by (intro power_int_nonneg_exp) simp
      finally show ?thesis .
    qed
    ultimately have hi: "\<bar>x\<bar> < 2 powi (expo x + 1)" by simp
    from lo hi show ?thesis ..
  qed
  then show "2 powi expo x \<le> \<bar>x\<bar>" and "\<bar>x\<bar> < 2 powi (expo x + 1)" by simp_all
qed

text \<open>The rules that evaluate a rounding on a numeral.\<close>

lemma bitlen_one: "bitlen 1 = 1"
  by (subst compute_bitlen) simp

lemma bitlen_numeral: "bitlen (numeral k) = bitlen (numeral k div 2) + 1"
  by (subst compute_bitlen) simp

lemmas rd_eval = rd_def nearest_def ulp_def expo_def rhe_def Let_def bitlen_one bitlen_numeral

lemma expo_abs [simp]: "expo (- x) = expo x"
  by (simp add: expo_def)

lemma ulp_minus [simp]: "ulp (- x) = ulp x"
  by (simp add: ulp_def)

lemma ulp_pos [simp]: "0 < ulp x"
  by (simp add: ulp_def)

lemma ulp_nonneg [simp]: "0 \<le> ulp x"
  by (simp add: ulp_def)

lemma ulp_nonzero [simp]: "ulp x \<noteq> 0"
  by (simp add: ulp_def)

lemma nearest_minus: "nearest (- x) = - nearest x"
  by (simp add: nearest_def rhe_minus)

lemma nearest_zero [simp]: "nearest 0 = 0"
  by (simp add: nearest_def)

text \<open>Rounding does not cross a multiple of the spacing around its argument.\<close>

lemma nearest_ge_grid:
  assumes "of_int k * ulp y \<le> y"
  shows "of_int k * ulp y \<le> nearest y"
proof (cases "y = 0")
  case True
  with assms show ?thesis by simp
next
  case False
  from assms have "real_of_int k \<le> y / ulp y" by (simp add: field_simps)
  then have "k \<le> rhe (y / ulp y)" by (rule rhe_ge_int)
  then have "real_of_int k \<le> real_of_int (rhe (y / ulp y))" by simp
  then have "real_of_int k * ulp y \<le> real_of_int (rhe (y / ulp y)) * ulp y"
    by (intro mult_right_mono) simp_all
  with False show ?thesis by (simp add: nearest_def)
qed

lemma nearest_le_grid:
  assumes "y \<le> of_int k * ulp y"
  shows "nearest y \<le> of_int k * ulp y"
proof -
  have "of_int (- k) * ulp (- y) \<le> - y" using assms by simp
  from nearest_ge_grid[OF this] show ?thesis by (simp add: nearest_minus)
qed

lemma nearest_nonneg: "0 \<le> y \<Longrightarrow> 0 \<le> nearest y"
  using nearest_ge_grid[of 0 y] by simp

lemma nearest_le_twice:
  assumes "0 \<le> y"
  shows "nearest y \<le> 2 * y"
proof (cases "y = 0")
  case True
  then show ?thesis by simp
next
  case False
  define q where "q = y / ulp y"
  have q: "0 < q" using assms False by (simp add: q_def)
  have "real_of_int (rhe q) \<le> 2 * q"
  proof (cases "q \<le> 1 / 2")
    case True
    have "\<lfloor>q\<rfloor> = 0" using q True by (simp add: floor_eq_iff)
    then have "rhe q = 0" using q True by (simp add: rhe_def Let_def)
    then show ?thesis using q by simp
  next
    case False
    with rhe_bounds(1)[of q] show ?thesis by linarith
  qed
  then have "real_of_int (rhe q) * ulp y \<le> 2 * q * ulp y"
    by (intro mult_right_mono) simp_all
  then show ?thesis using False by (simp add: nearest_def q_def)
qed

lemma nearest_abs_le_twice: "\<bar>nearest y\<bar> \<le> 2 * \<bar>y\<bar>"
proof (cases "0 \<le> y")
  case True
  with nearest_nonneg[OF True] nearest_le_twice[OF True] show ?thesis by simp
next
  case False
  then have n: "0 \<le> - y" by simp
  from nearest_nonneg[OF n] nearest_le_twice[OF n] False show ?thesis
    by (simp add: nearest_minus)
qed

text \<open>Below \<open>2^1023\<close> in magnitude nothing overflows.\<close>

lemma rd_finite: "\<bar>x\<bar> < 2 ^ 1023 \<Longrightarrow> rd x = Num (nearest x)"
  using nearest_abs_le_twice[of x] by (simp add: rd_def)

lemma pow2_less_imp_exp_less:
  fixes a b :: int
  assumes "(2::real) powi a < 2 powi b"
  shows "a < b"
proof (rule ccontr)
  assume "\<not> a < b"
  then have "b \<le> a" by simp
  then have "(2::real) powi b \<le> 2 powi a" by (intro power_int_increasing) simp_all
  with assms show False by simp
qed

lemma expo_mono:
  assumes "x \<noteq> 0" "\<bar>x\<bar> \<le> \<bar>y\<bar>"
  shows "expo x \<le> expo y"
proof -
  from assms have y: "y \<noteq> 0" by auto
  have "2 powi expo x \<le> \<bar>x\<bar>" by (rule expo_bracket[OF assms(1)])
  also note assms(2)
  also have "\<bar>y\<bar> < 2 powi (expo y + 1)" by (rule expo_bracket[OF y])
  finally have "expo x < expo y + 1" by (rule pow2_less_imp_exp_less)
  then show ?thesis by simp
qed

lemma expo_ge:
  assumes "2 powi k \<le> \<bar>x\<bar>"
  shows "k \<le> expo x"
proof -
  have pos: "(0::real) < 2 powi k" by (intro zero_less_power_int) simp
  have x: "x \<noteq> 0"
  proof
    assume "x = 0"
    with assms have "(2::real) powi k \<le> 0" by simp
    with pos show False by linarith
  qed
  have "2 powi k \<le> \<bar>x\<bar>" by fact
  also have "\<bar>x\<bar> < 2 powi (expo x + 1)" by (rule expo_bracket[OF x])
  finally have "k < expo x + 1" by (rule pow2_less_imp_exp_less)
  then show ?thesis by simp
qed

lemma expo_le:
  assumes "x \<noteq> 0" "\<bar>x\<bar> < 2 powi (k + 1)"
  shows "expo x \<le> k"
proof -
  have "2 powi expo x \<le> \<bar>x\<bar>" by (rule expo_bracket[OF assms(1)])
  also note assms(2)
  finally have "expo x < k + 1" by (rule pow2_less_imp_exp_less)
  then show ?thesis by simp
qed

text \<open>A multiple of a power of two at least as coarse as the spacing around \<open>y\<close> lies on
  the grid around \<open>y\<close>.\<close>

lemma on_grid:
  assumes "max (expo y) (- 1022) - 52 \<le> j"
  shows "\<exists>k. of_int m * 2 powi j = of_int k * ulp y"
proof -
  define i where "i = max (expo y) (- 1022) - 52"
  have "(2::real) powi j = 2 powi ((j - i) + i)" by simp
  also have "\<dots> = 2 powi (j - i) * 2 powi i" by (rule power_int_add) simp
  also have "(2::real) powi (j - i) = 2 ^ nat (j - i)"
    using assms by (intro power_int_nonneg_exp) (simp add: i_def)
  finally have "of_int m * 2 powi j = of_int (m * 2 ^ nat (j - i)) * ulp y"
    by (simp add: ulp_def i_def)
  then show ?thesis ..
qed

lemma grid_fixed:
  assumes "v = of_int m * 2 powi j" "max (expo v) (- 1022) - 52 \<le> j"
  shows "nearest v = v"
proof (cases "v = 0")
  case True
  then show ?thesis by simp
next
  case False
  from on_grid[OF assms(2), of m] obtain k where k: "v = of_int k * ulp v"
    unfolding assms(1)[symmetric] by blast
  then have "v / ulp v = of_int k" by (metis nonzero_mult_div_cancel_right ulp_nonzero)
  then have "rhe (v / ulp v) = k" by simp
  with False k show ?thesis by (simp add: nearest_def)
qed

lemma fixed_on_own_grid:
  assumes "nearest a = a"
  shows "\<exists>m. a = of_int m * 2 powi (max (expo a) (- 1022) - 52)"
proof (cases "a = 0")
  case True
  then have "a = of_int 0 * 2 powi (max (expo a) (- 1022) - 52)" by simp
  then show ?thesis ..
next
  case False
  with assms have "a = of_int (rhe (a / ulp a)) * 2 powi (max (expo a) (- 1022) - 52)"
    by (simp add: nearest_def ulp_def)
  then show ?thesis ..
qed

text \<open>Rounding never crosses a double: it is monotone against every fixed point.\<close>

lemma nearest_ge_double:
  assumes a: "nearest a = a" and le: "a \<le> y"
  shows "a \<le> nearest y"
proof -
  consider "a \<le> 0" "0 \<le> y" | "y < 0" | "0 < a"
    using le by linarith
  then show ?thesis
  proof cases
    case 1
    with nearest_nonneg[of y] show ?thesis by simp
  next
    case 2
    with le have a0: "a \<noteq> 0" and y0: "y \<noteq> 0" and "\<bar>y\<bar> \<le> \<bar>a\<bar>" by simp_all
    then have "expo y \<le> expo a" by (intro expo_mono)
    then have j: "max (expo y) (- 1022) - 52 \<le> max (expo a) (- 1022) - 52" by simp
    from fixed_on_own_grid[OF a] obtain m where m: "a = of_int m * 2 powi (max (expo a) (- 1022) - 52)" ..
    from on_grid[OF j, of m] m obtain k where k: "a = of_int k * ulp y" by auto
    from nearest_ge_grid[of k y] le k show ?thesis by simp
  next
    case 3
    with le have y0: "y \<noteq> 0" and a0: "a \<noteq> 0" and ay: "\<bar>a\<bar> \<le> \<bar>y\<bar>" by simp_all
    from expo_mono[OF a0 ay] have e: "expo a \<le> expo y" .
    show ?thesis
    proof (cases "max (expo y) (- 1022) \<le> max (expo a) (- 1022)")
      case True
      then have j: "max (expo y) (- 1022) - 52 \<le> max (expo a) (- 1022) - 52" by simp
      from fixed_on_own_grid[OF a] obtain m where m: "a = of_int m * 2 powi (max (expo a) (- 1022) - 52)" ..
      from on_grid[OF j, of m] m obtain k where k: "a = of_int k * ulp y" by auto
      from nearest_ge_grid[of k y] le k show ?thesis by simp
    next
      case False
      then have ey: "- 1022 \<le> expo y" "expo a < expo y" by simp_all
      have "max (expo y) (- 1022) - 52 \<le> expo y" using ey by simp
      from on_grid[OF this, of 1] obtain k where k: "2 powi expo y = of_int k * ulp y" by auto
      have "2 powi expo y \<le> \<bar>y\<bar>" by (rule expo_bracket[OF y0])
      then have "of_int k * ulp y \<le> y" using 3 le k by simp
      from nearest_ge_grid[OF this] have g: "2 powi expo y \<le> nearest y" using k by simp
      have "\<bar>a\<bar> < 2 powi (expo a + 1)" by (rule expo_bracket[OF a0])
      also have "(2::real) powi (expo a + 1) \<le> 2 powi expo y"
        using ey(2) by (intro power_int_increasing) simp_all
      finally show ?thesis using g by simp
    qed
  qed
qed

lemma nearest_le_double:
  assumes b: "nearest b = b" and le: "y \<le> b"
  shows "nearest y \<le> b"
proof -
  have "nearest (- b) = - b" using b by (simp add: nearest_minus)
  moreover have "- b \<le> - y" using le by simp
  ultimately have "- b \<le> nearest (- y)" by (rule nearest_ge_double)
  then show ?thesis by (simp add: nearest_minus)
qed

text \<open>The result of rounding is a double.\<close>

lemma nearest_idem: "nearest (nearest x) = nearest x"
proof (cases "nearest x = 0")
  case True
  then show ?thesis by simp
next
  case False
  then have x: "x \<noteq> 0" by auto
  define e where "e = max (expo x) (- 1022)"
  define n where "n = rhe (x / ulp x)"
  define v where "v = nearest x"
  have u: "ulp x = 2 powi (e - 52)" by (simp add: ulp_def e_def)
  have v: "v = of_int n * 2 powi (e - 52)" using x by (simp add: v_def nearest_def n_def u)
  have v0: "v \<noteq> 0" using False by (simp add: v_def)
  have p: "(2::real) powi (e + 1) = 2 ^ 53 * 2 powi (e - 52)"
  proof -
    have "e + 1 = 53 + (e - 52)" by simp
    then have "(2::real) powi (e + 1) = 2 powi (53 + (e - 52))" by (rule arg_cong)
    also have "\<dots> = 2 powi 53 * 2 powi (e - 52)" by (rule power_int_add) simp
    finally show ?thesis by simp
  qed
  have "\<bar>x\<bar> < 2 powi (expo x + 1)" by (rule expo_bracket[OF x])
  also have "(2::real) powi (expo x + 1) \<le> 2 powi (e + 1)"
    by (intro power_int_increasing) (simp_all add: e_def)
  finally have xb: "\<bar>x\<bar> < 2 ^ 53 * ulp x" by (simp add: p u)
  have "x \<le> of_int (2 ^ 53) * ulp x" "of_int (- (2 ^ 53)) * ulp x \<le> x"
    using xb by simp_all
  from nearest_le_grid[OF this(1)] nearest_ge_grid[OF this(2)]
  have vb: "\<bar>v\<bar> \<le> 2 powi (e + 1)" by (simp add: v_def p u)
  show ?thesis
  proof (cases "\<bar>v\<bar> < 2 powi (e + 1)")
    case True
    from expo_le[OF v0 True] have "max (expo v) (- 1022) - 52 \<le> e - 52" by (simp add: e_def)
    from grid_fixed[OF v this] show ?thesis by (simp add: v_def)
  next
    case False
    with vb have eq: "\<bar>v\<bar> = 2 powi (e + 1)" by simp
    then have "(2::real) powi (e + 1) \<le> \<bar>v\<bar>" by simp
    from expo_ge[OF this] have ge: "e + 1 \<le> expo v" .
    have "\<bar>v\<bar> < 2 powi (e + 1 + 1)"
      unfolding eq by (intro power_int_strict_increasing) simp_all
    from expo_le[OF v0 this] ge have ev: "expo v = e + 1" by simp
    have "v = of_int (if 0 \<le> v then 1 else - 1) * 2 powi (e + 1)"
      using eq by (auto simp: abs_if split: if_splits)
    moreover have "max (expo v) (- 1022) - 52 \<le> e + 1" by (simp add: ev e_def)
    ultimately show ?thesis unfolding v_def[symmetric] by (rule grid_fixed)
  qed
qed

text \<open>The rounding error is at most half the spacing.\<close>

lemma nearest_error: "\<bar>nearest y - y\<bar> \<le> ulp y / 2"
proof (cases "y = 0")
  case True
  then show ?thesis by simp
next
  case False
  define q where "q = y / ulp y"
  have y: "y = q * ulp y" by (simp add: q_def)
  have "\<bar>real_of_int (rhe q) - q\<bar> \<le> 1 / 2"
    using rhe_bounds[of q] by linarith
  then have "\<bar>real_of_int (rhe q) - q\<bar> * ulp y \<le> 1 / 2 * ulp y"
    by (intro mult_right_mono) simp_all
  moreover have "\<bar>real_of_int (rhe q) - q\<bar> * ulp y = \<bar>real_of_int (rhe q) * ulp y - q * ulp y\<bar>"
    by (simp add: abs_mult left_diff_distrib[symmetric])
  ultimately have "\<bar>real_of_int (rhe q) * ulp y - y\<bar> \<le> ulp y / 2"
    using y by simp
  then show ?thesis using False by (simp add: nearest_def q_def)
qed


text \<open>Every double is a whole multiple of the smallest one, \<open>2^-1074\<close>.\<close>

lemma double_multiple:
  assumes "nearest a = a" and u: "u = 2 powi (- 1074)"
  shows "\<exists>k. a = of_int k * u"
proof -
  from fixed_on_own_grid[OF assms(1)] obtain m where
    m: "a = of_int m * 2 powi (max (expo a) (- 1022) - 52)" ..
  define j where "j = max (expo a) (- 1022) - 52"
  have j: "- 1074 \<le> j" by (simp add: j_def)
  have "j = (j + 1074) + (- 1074)" by simp
  then have "(2::real) powi j = 2 powi ((j + 1074) + (- 1074))" by (rule arg_cong)
  also have "\<dots> = 2 powi (j + 1074) * 2 powi (- 1074)" by (rule power_int_add) simp
  also have "(2::real) powi (j + 1074) = 2 ^ nat (j + 1074)"
    using j by (intro power_int_nonneg_exp) simp
  finally have p: "(2::real) powi j = 2 ^ nat (j + 1074) * u" unfolding u .
  have "a = of_int m * (2 ^ nat (j + 1074) * u)" using m unfolding j_def[symmetric] p .
  then have "a = of_int (m * 2 ^ nat (j + 1074)) * u"
    by (simp only: of_int_mult of_int_power of_int_numeral mult.assoc)
  then show ?thesis ..
qed

text \<open>The difference of two doubles that lies in the subnormal range is a double.\<close>

lemma small_difference_exact:
  assumes "nearest a = a" "nearest b = b" "\<bar>b - a\<bar> < 2 powi (- 1022)"
  shows "nearest (b - a) = b - a"
proof (cases "b - a = 0")
  case True
  then show ?thesis by simp
next
  case False
  define u :: real where "u = 2 powi (- 1074)"
  from double_multiple[OF assms(1) u_def] obtain ka where ka: "a = of_int ka * u" ..
  from double_multiple[OF assms(2) u_def] obtain kb where kb: "b = of_int kb * u" ..
  have "b - a = of_int kb * u - of_int ka * u" by (simp only: ka[symmetric] kb[symmetric])
  then have "b - a = of_int (kb - ka) * u" by (simp only: of_int_diff left_diff_distrib)
  then have v: "b - a = of_int (kb - ka) * 2 powi (- 1074)" unfolding u_def .
  have e: "(- 1023 + 1 :: int) = - 1022" by simp
  have "\<bar>b - a\<bar> < 2 powi (- 1023 + 1)" using assms(3) by (simp only: e)
  from expo_le[OF False this] have "max (expo (b - a)) (- 1022) - 52 \<le> - 1074" by simp
  from grid_fixed[OF v this] show ?thesis .
qed

text \<open>The largest double below 1.\<close>

lemma double_below_one:
  assumes "nearest t = t" "t < 1"
  shows "t \<le> 1 - 1 / 2 ^ 53"
proof (cases "t < 1 / 2")
  case True
  then show ?thesis by simp
next
  case False
  then have t0: "t \<noteq> 0" and ge: "2 powi (- 1) \<le> \<bar>t\<bar>" by (simp_all add: power_int_minus)
  have "\<bar>t\<bar> < 2 powi (- 1 + 1)" using assms(2) False by simp
  from expo_le[OF t0 this] expo_ge[OF ge] have e: "expo t = - 1" by simp
  from fixed_on_own_grid[OF assms(1)] obtain m where m: "t = of_int m * 2 powi (- 53)"
    by (auto simp: e)
  have p: "(2::real) powi (- 53) = 1 / 2 ^ 53" by (simp add: power_int_minus field_simps)
  have "real_of_int m < 2 ^ 53" using assms(2) m by (simp add: p field_simps)
  then have "m < 2 ^ 53" by (metis of_int_less_iff of_int_numeral of_int_power)
  then have "m \<le> 2 ^ 53 - 1" by simp
  then have "real_of_int m \<le> real_of_int (2 ^ 53 - 1)" by (simp only: of_int_le_iff)
  then have "real_of_int m \<le> 2 ^ 53 - 1" by simp
  then have "real_of_int m * (1 / 2 ^ 53) \<le> (2 ^ 53 - 1) * (1 / 2 ^ 53)"
    by (intro mult_right_mono) simp_all
  then show ?thesis by (simp add: m p)
qed

text \<open>A normal double times a double below 1 never rounds back to itself, except the
  smallest normal double.\<close>

lemma product_rounds_below:
  assumes d: "nearest d = d" and lo: "lo = 2 powi (- 1022)" "lo < d"
    and t: "0 < t" "t \<le> 1 - 1 / 2 ^ 53"
  shows "nearest (d * t) < d"
proof -
  define y where "y = d * t"
  define e where "e = expo d"
  have "0 < lo" unfolding lo(1) by (intro zero_less_power_int) simp
  with lo(2) have d0: "0 < d" by linarith
  have y0: "0 < y" using d0 t by (simp add: y_def)
  have yd: "y < d" using d0 t by (simp add: y_def)
  have "lo \<le> \<bar>d\<bar>" using lo(2) by simp
  then have "2 powi (- 1022) \<le> \<bar>d\<bar>" unfolding lo(1) .
  from expo_ge[OF this] have e: "- 1022 \<le> e" by (simp add: e_def)
  have br: "2 powi e \<le> d" using expo_bracket(1)[of d] d0 by (simp add: e_def)
  have ey: "expo y \<le> e" unfolding e_def using y0 yd d0 by (intro expo_mono) simp_all
  have gap: "d / 2 ^ 53 \<le> d - y"
  proof -
    have "d * t \<le> d * (1 - 1 / 2 ^ 53)" using t d0 by (intro mult_left_mono) simp_all
    then show ?thesis by (simp add: y_def algebra_simps)
  qed
  have le: "nearest y \<le> d" using yd by (intro nearest_le_double[OF d(1)]) simp
  have sh: "(2::real) powi (k - 53) * 2 ^ 53 = 2 powi k" for k
  proof -
    have "k = (k - 53) + 53" by simp
    then have "(2::real) powi k = 2 powi ((k - 53) + 53)" by (rule arg_cong)
    also have "\<dots> = 2 powi (k - 53) * 2 powi 53" by (rule power_int_add) simp
    finally show ?thesis by simp
  qed
  have hf: "(2::real) powi (k - 52) / 2 = 2 powi (k - 53)" for k
  proof -
    have "k - 52 = (k - 53) + 1" by simp
    then have "(2::real) powi (k - 52) = 2 powi ((k - 53) + 1)" by (rule arg_cong)
    also have "\<dots> = 2 powi (k - 53) * 2 powi 1" by (rule power_int_add) simp
    finally show ?thesis by simp
  qed
  have "nearest y \<noteq> d"
  proof
    assume eq: "nearest y = d"
    have err: "d - y \<le> ulp y / 2" using nearest_error[of y] unfolding eq by linarith
    show False
    proof (cases "expo y = e")
      case True
      have "max (expo y) (- 1022) = e" using e True by simp
      then have "ulp y = 2 powi (e - 52)" by (simp only: ulp_def)
      with err have "d - y \<le> 2 powi (e - 52) / 2" by simp
      then have "d - y \<le> 2 powi (e - 53)" by (simp only: hf)
      with gap have "d / 2 ^ 53 \<le> 2 powi (e - 53)" by linarith
      then have "d \<le> 2 powi (e - 53) * 2 ^ 53" by (simp add: field_simps)
      then have "d \<le> 2 powi e" by (simp only: sh)
      moreover have "2 powi e \<le> y" using expo_bracket(1)[of y] y0 True by simp
      ultimately show False using yd by linarith
    next
      case False
      with ey have ey': "expo y \<le> e - 1" by simp
      show False
      proof (cases "e = - 1022")
        case True
        have "max (expo y) (- 1022) = e" using ey' True by simp
        then have "ulp y = 2 powi (e - 52)" by (simp only: ulp_def)
        with err have "d - y \<le> 2 powi (e - 52) / 2" by simp
        then have 1: "d - y \<le> 2 powi (e - 53)" by (simp only: hf)
        have "lo = 2 powi e" by (simp only: lo(1) True)
        with lo(2) have "2 powi e < d" by simp
        then have "2 powi (e - 53) * 2 ^ 53 < d" by (simp only: sh)
        then have "2 powi (e - 53) < d / 2 ^ 53" by (simp add: field_simps)
        with 1 gap show False by linarith
      next
        case False
        with e have "- 1022 \<le> e - 1" by simp
        then have "max (expo y) (- 1022) - 52 \<le> (e - 1) - 52" using ey' by simp
        then have "ulp y \<le> 2 powi ((e - 1) - 52)"
          unfolding ulp_def by (intro power_int_increasing) simp_all
        with err have "d - y \<le> 2 powi ((e - 1) - 52) / 2" by simp
        then have 1: "d - y \<le> 2 powi (e - 1 - 53)" by (simp only: hf)
        have "2 powi (e - 53) * 2 ^ 53 \<le> d" using br by (simp only: sh)
        then have 2: "2 powi (e - 53) \<le> d / 2 ^ 53" by (simp add: field_simps)
        have "(2::real) powi (e - 1 - 53) < 2 powi (e - 53)"
          by (intro power_int_strict_increasing) simp_all
        with 1 2 gap show False by linarith
      qed
    qed
  qed
  with le show ?thesis unfolding y_def by simp
qed

text \<open>One interpolation step in double arithmetic, towards a target above: it moves
  up and not past the target.\<close>

lemma step_up:
  assumes a: "nearest a = a" and b: "nearest b = b" and t: "nearest t = t" "0 < t" "t < 1"
    and le: "a \<le> b"
  shows "a \<le> nearest (a + nearest (nearest (b - a) * t))"
    and "nearest (a + nearest (nearest (b - a) * t)) \<le> b"
    and "0 \<le> nearest (nearest (b - a) * t)" and "a + nearest (nearest (b - a) * t) \<le> b"
proof -
  define d where "d = nearest (b - a)"
  define p where "p = nearest (d * t)"
  define lo :: real where "lo = 2 powi (- 1022)"
  have dd: "nearest d = d" by (simp add: d_def nearest_idem)
  have pp: "nearest p = p" by (simp add: p_def nearest_idem)
  have d0: "0 \<le> d" unfolding d_def using le by (intro nearest_nonneg) simp
  have "0 \<le> d * t" using d0 t by simp
  then show p0: "0 \<le> nearest (nearest (b - a) * t)" unfolding d_def by (rule nearest_nonneg)
  have "d * t \<le> d" using d0 t by (simp add: mult_left_le)
  then have pd: "p \<le> d" unfolding p_def by (rule nearest_le_double[OF dd])
  have px: "p \<le> b - a"
  proof (rule ccontr)
    assume "\<not> p \<le> b - a"
    then have x: "b - a < p" by simp
    then have "nearest (b - a) \<le> p" by (intro nearest_le_double[OF pp]) simp
    with pd have eq: "p = d" by (simp add: d_def)
    show False
    proof (cases "lo < d")
      case True
      from double_below_one[OF t(1) t(3)] have "t \<le> 1 - 1 / 2 ^ 53" .
      from product_rounds_below[OF dd lo_def True t(2) this] eq show False by (simp add: p_def)
    next
      case False
      with x eq le have "\<bar>b - a\<bar> < lo" by simp
      then have "\<bar>b - a\<bar> < 2 powi (- 1022)" unfolding lo_def .
      from small_difference_exact[OF a b this] x eq show False by (simp add: d_def)
    qed
  qed
  then show s: "a + nearest (nearest (b - a) * t) \<le> b" by (simp add: p_def d_def)
  show "a \<le> nearest (a + nearest (nearest (b - a) * t))"
    using p0 by (intro nearest_ge_double[OF a]) simp
  show "nearest (a + nearest (nearest (b - a) * t)) \<le> b"
    using s by (rule nearest_le_double[OF b])
qed

lemma step_mirror:
  "nearest (- a + nearest (nearest (- b - (- a)) * t)) = - nearest (a + nearest (nearest (b - a) * t))"
proof -
  have "nearest (- b - (- a)) = - nearest (b - a)"
    using nearest_minus[of "b - a"] by simp
  then have "nearest (nearest (- b - (- a)) * t) = - nearest (nearest (b - a) * t)"
    using nearest_minus[of "nearest (b - a) * t"] by simp
  then show ?thesis
    using nearest_minus[of "a + nearest (nearest (b - a) * t)"] by simp
qed

lemma step_down:
  assumes a: "nearest a = a" and b: "nearest b = b" and t: "nearest t = t" "0 < t" "t < 1"
    and le: "b \<le> a"
  shows "nearest (a + nearest (nearest (b - a) * t)) \<le> a"
    and "b \<le> nearest (a + nearest (nearest (b - a) * t))"
    and "nearest (nearest (b - a) * t) \<le> 0" and "b \<le> a + nearest (nearest (b - a) * t)"
proof -
  have a': "nearest (- a) = - a" and b': "nearest (- b) = - b"
    using a b by (simp_all add: nearest_minus)
  have le': "- a \<le> - b" using le by simp
  note U = step_up[OF a' b' t le']
  have m: "nearest (nearest (- b - (- a)) * t) = - nearest (nearest (b - a) * t)"
    using nearest_minus[of "b - a"] nearest_minus[of "nearest (b - a) * t"] by simp
  show "nearest (a + nearest (nearest (b - a) * t)) \<le> a"
    using U(1) unfolding step_mirror by simp
  show "b \<le> nearest (a + nearest (nearest (b - a) * t))"
    using U(2) unfolding step_mirror by simp
  show "nearest (nearest (b - a) * t) \<le> 0" using U(3) unfolding m by simp
  show "b \<le> a + nearest (nearest (b - a) * t)" using U(4) unfolding m by simp
qed

lemma is_double_nearest: "is_double x \<Longrightarrow> nearest x = x"
  by (simp add: is_double_def rd_def split: if_splits)

lemma is_doubleI: "nearest x = x \<Longrightarrow> \<bar>x\<bar> < 2 ^ 1023 \<Longrightarrow> is_double x"
  by (simp add: is_double_def rd_finite)

lemma double_2_1023: "nearest (2 ^ 1023) = (2 ^ 1023 :: real)"
proof -
  define v :: real where "v = 2 powi 1023"
  have v: "v = of_int 1 * 2 powi 1023" by (simp only: v_def of_int_1 mult_1)
  have pos: "0 < v" unfolding v_def by (intro zero_less_power_int) simp
  have "v < 2 powi (1075 + 1)" unfolding v_def by (intro power_int_strict_increasing) simp_all
  with pos have "\<bar>v\<bar> < 2 powi (1075 + 1)" by (simp only: abs_of_pos)
  moreover have "v \<noteq> 0" using pos by simp
  ultimately have "expo v \<le> 1075" by (intro expo_le)
  then have "max (expo v) (- 1022) - 52 \<le> 1023" by simp
  from grid_fixed[OF v this] have "nearest v = v" .
  moreover have "v = 2 ^ 1023" unfolding v_def by (rule power_int_numeral)
  ultimately show ?thesis by (simp only:)
qed

lemma nearest_bounded:
  assumes "\<bar>x\<bar> \<le> 2 ^ 1023"
  shows "\<bar>nearest x\<bar> \<le> 2 ^ 1023"
proof -
  define B :: real where "B = 2 ^ 1023"
  have B: "nearest B = B" unfolding B_def by (rule double_2_1023)
  then have B': "nearest (- B) = - B" by (simp add: nearest_minus)
  have x: "x \<le> B" "- B \<le> x" using assms unfolding B_def[symmetric] by linarith+
  from nearest_le_double[OF B x(1)] nearest_ge_double[OF B' x(2)]
  show ?thesis unfolding B_def[symmetric] by linarith
qed

text \<open>One step of \<open>lerp\<close> on doubles well inside the finite range.\<close>

lemma lerp_finite:
  assumes a: "nearest a = a" "\<bar>a\<bar> < 2 ^ 1022" and b: "nearest b = b" "\<bar>b\<bar> < 2 ^ 1022"
    and t: "nearest t = t" "0 < t" "t < 1"
  shows "lerp (Num a) (Num b) (Num t) = Num (nearest (a + nearest (nearest (b - a) * t)))"
proof -
  define B :: real where "B = 2 ^ 1022"
  have B2: "2 * B = 2 ^ 1023" unfolding B_def by simp
  have ab: "\<bar>a\<bar> < B" "\<bar>b\<bar> < B" using a(2) b(2) unfolding B_def by simp_all
  define d where "d = nearest (b - a)"
  define p where "p = nearest (d * t)"
  have "\<bar>b - a\<bar> < 2 * B" using ab by linarith
  then have x: "\<bar>b - a\<bar> < 2 ^ 1023" unfolding B2 .
  then have 1: "rd (b - a) = Num d" unfolding d_def by (rule rd_finite)
  have "\<bar>b - a\<bar> \<le> 2 ^ 1023" using x by simp
  from nearest_bounded[OF this] have dB: "\<bar>d\<bar> \<le> 2 * B" unfolding d_def B2 .
  have "\<bar>d * t\<bar> = \<bar>d\<bar> * t" using t by (simp add: abs_mult)
  also have "\<dots> < 2 * B"
  proof (cases "d = 0")
    case True
    have "0 < B" unfolding B_def by simp
    with True show ?thesis by simp
  next
    case False
    then have "\<bar>d\<bar> * t < \<bar>d\<bar> * 1" using t by (intro mult_strict_left_mono) simp_all
    with dB show ?thesis by simp
  qed
  finally have "\<bar>d * t\<bar> < 2 ^ 1023" unfolding B2 .
  then have 2: "rd (d * t) = Num p" unfolding p_def by (rule rd_finite)
  have "\<bar>a + p\<bar> < B"
  proof (cases "a \<le> b")
    case True
    from step_up(3,4)[OF a(1) b(1) t True] have "0 \<le> p" "a + p \<le> b" by (simp_all add: p_def d_def)
    with ab show ?thesis by linarith
  next
    case False
    then have "b \<le> a" by simp
    from step_down(3,4)[OF a(1) b(1) t this] have "p \<le> 0" "b \<le> a + p" by (simp_all add: p_def d_def)
    with ab show ?thesis by linarith
  qed
  also have "B < 2 ^ 1023" using B2 unfolding B_def by simp
  finally have 3: "rd (a + p) = Num (nearest (a + p))" by (rule rd_finite)
  have "lerp (Num a) (Num b) (Num t) = js_add (Num a) (js_mul (rd (b - a)) (Num t))"
    by (simp add: lerp_def js_minus_def)
  also have "\<dots> = rd (a + p)" unfolding 1 by (simp add: 2)
  finally show ?thesis unfolding 3 by (simp add: p_def d_def)
qed

lemma lerp_step:
  assumes a: "nearest a = a" "\<bar>a\<bar> < 2 ^ 1022" and b: "nearest b = b" "\<bar>b\<bar> < 2 ^ 1022"
    and t: "nearest t = t" "0 < t" "t < 1"
  shows "\<exists>c. lerp (Num a) (Num b) (Num t) = Num c \<and> nearest c = c \<and>
           (a \<le> b \<longrightarrow> a \<le> c \<and> c \<le> b) \<and> (b \<le> a \<longrightarrow> b \<le> c \<and> c \<le> a)"
proof -
  let ?c = "nearest (a + nearest (nearest (b - a) * t))"
  have "lerp (Num a) (Num b) (Num t) = Num ?c" by (rule lerp_finite[OF assms])
  moreover have "nearest ?c = ?c" by (rule nearest_idem)
  moreover have "a \<le> ?c \<and> ?c \<le> b" if "a \<le> b"
    using step_up(1,2)[OF a(1) b(1) t that] by simp
  moreover have "b \<le> ?c \<and> ?c \<le> a" if "b \<le> a"
    using step_down(1,2)[OF a(1) b(1) t that] by simp
  ultimately show ?thesis by blast
qed

lemma between_bounded:
  fixes a b c :: real
  assumes "\<bar>a\<bar> < B" "\<bar>b\<bar> < B" "a \<le> b \<longrightarrow> a \<le> c \<and> c \<le> b" "b \<le> a \<longrightarrow> b \<le> c \<and> c \<le> a"
  shows "\<bar>c\<bar> < B"
proof (cases "a \<le> b")
  case True
  with assms(3) have "a \<le> c" "c \<le> b" by simp_all
  with assms(1,2) show ?thesis by linarith
next
  case False
  with assms(4) have "b \<le> c" "c \<le> a" by simp_all
  with assms(1,2) show ?thesis by linarith
qed

lemma lerp_seq_between:
  assumes a: "nearest a = a" "\<bar>a\<bar> < 2 ^ 1022" and b: "nearest b = b" "\<bar>b\<bar> < 2 ^ 1022"
    and t: "nearest t = t" "0 < t" "t < 1"
  shows "\<exists>c. lerp_seq (Num a) (Num b) (Num t) k = Num c \<and> nearest c = c \<and>
           (a \<le> b \<longrightarrow> a \<le> c \<and> c \<le> b) \<and> (b \<le> a \<longrightarrow> b \<le> c \<and> c \<le> a)"
proof (induction k)
  case 0
  from a(1) show ?case by simp
next
  case (Suc k)
  then obtain c where c: "lerp_seq (Num a) (Num b) (Num t) k = Num c" "nearest c = c"
    "a \<le> b \<longrightarrow> a \<le> c \<and> c \<le> b" "b \<le> a \<longrightarrow> b \<le> c \<and> c \<le> a"
    by blast
  have cB: "\<bar>c\<bar> < 2 ^ 1022" by (rule between_bounded[OF a(2) b(2) c(3,4)])
  from lerp_step[OF c(2) cB b t] obtain c' where c': "lerp (Num c) (Num b) (Num t) = Num c'"
    "nearest c' = c'" "c \<le> b \<longrightarrow> c \<le> c' \<and> c' \<le> b" "b \<le> c \<longrightarrow> b \<le> c' \<and> c' \<le> c"
    by blast
  have "lerp_seq (Num a) (Num b) (Num t) (Suc k) = Num c'" by (simp add: c(1) c'(1))
  moreover have "a \<le> b \<longrightarrow> a \<le> c' \<and> c' \<le> b" using c(3) c'(3) by auto
  moreover have "b \<le> a \<longrightarrow> b \<le> c' \<and> c' \<le> c" using c(4) c'(4) by auto
  moreover have "b \<le> a \<longrightarrow> c' \<le> a" using c(4) c'(4) by auto
  ultimately show ?case using c'(2) by blast
qed

lemma lerp_seq_monotone:
  assumes a: "nearest a = a" "\<bar>a\<bar> < 2 ^ 1022" and b: "nearest b = b" "\<bar>b\<bar> < 2 ^ 1022"
    and t: "nearest t = t" "0 < t" "t < 1"
  shows "\<exists>c c'. lerp_seq (Num a) (Num b) (Num t) k = Num c \<and>
           lerp_seq (Num a) (Num b) (Num t) (Suc k) = Num c' \<and>
           (a \<le> b \<longrightarrow> c \<le> c') \<and> (b \<le> a \<longrightarrow> c' \<le> c)"
proof -
  from lerp_seq_between[OF assms, of k] obtain c where
    c: "lerp_seq (Num a) (Num b) (Num t) k = Num c" "nearest c = c"
    "a \<le> b \<longrightarrow> a \<le> c \<and> c \<le> b" "b \<le> a \<longrightarrow> b \<le> c \<and> c \<le> a"
    by blast
  have cB: "\<bar>c\<bar> < 2 ^ 1022" by (rule between_bounded[OF a(2) b(2) c(3,4)])
  from lerp_step[OF c(2) cB b t] obtain c' where c': "lerp (Num c) (Num b) (Num t) = Num c'"
    "c \<le> b \<longrightarrow> c \<le> c' \<and> c' \<le> b" "b \<le> c \<longrightarrow> b \<le> c' \<and> c' \<le> c"
    by blast
  have "lerp_seq (Num a) (Num b) (Num t) (Suc k) = Num c'" by (simp add: c(1) c'(1))
  moreover have "a \<le> b \<longrightarrow> c \<le> c'" using c(3) c'(2) by auto
  moreover have "b \<le> a \<longrightarrow> c' \<le> c" using c(4) c'(3) by auto
  ultimately show ?thesis using c(1) by blast
qed

text \<open>There are finitely many doubles between two bounds, so a monotone sequence of
  doubles between them stops moving.\<close>

lemma finite_doubles: "finite {x. nearest x = x \<and> \<bar>x\<bar> \<le> B}"
proof -
  define u :: real where "u = 2 powi (- 1074)"
  have u: "0 < u" unfolding u_def by (intro zero_less_power_int) simp
  define M where "M = \<lceil>B / u\<rceil>"
  have "{x. nearest x = x \<and> \<bar>x\<bar> \<le> B} \<subseteq> (\<lambda>k. of_int k * u) ` {- M .. M}"
  proof
    fix x assume "x \<in> {x. nearest x = x \<and> \<bar>x\<bar> \<le> B}"
    then have x: "nearest x = x" "\<bar>x\<bar> \<le> B" by simp_all
    from double_multiple[OF x(1) u_def] obtain k where k: "x = of_int k * u" ..
    have "\<bar>real_of_int k\<bar> * u \<le> B" using x(2) u by (simp add: k abs_mult)
    then have "\<bar>real_of_int k\<bar> \<le> B / u" using u by (simp add: field_simps)
    also have "\<dots> \<le> of_int M" unfolding M_def by (rule le_of_int_ceiling)
    finally have "real_of_int \<bar>k\<bar> \<le> real_of_int M" by (simp only: of_int_abs)
    then have "\<bar>k\<bar> \<le> M" by (simp only: of_int_le_iff)
    then have "k \<in> {- M .. M}" by auto
    with k show "x \<in> (\<lambda>k. of_int k * u) ` {- M .. M}" by blast
  qed
  then show ?thesis by (rule finite_subset) simp
qed

lemma monotone_in_finite_stops:
  fixes c :: "nat \<Rightarrow> real"
  assumes "finite D" "\<forall>k. c k \<in> D" "\<forall>k. c k \<le> c (Suc k)"
  shows "\<exists>N. c (Suc N) = c N"
proof (rule ccontr)
  assume n: "\<not> (\<exists>N. c (Suc N) = c N)"
  have lt: "c k < c (Suc k)" for k
  proof -
    from assms(3) have "c k \<le> c (Suc k)" by simp
    moreover from n have "c (Suc k) \<noteq> c k" by simp
    ultimately show ?thesis by simp
  qed
  then have "strict_mono c" by (simp add: strict_mono_Suc_iff)
  then have i: "inj c" by (rule strict_mono_imp_inj_on)
  have "range c \<subseteq> D" using assms(2) by auto
  then have f: "finite (range c)" using assms(1) by (rule finite_subset)
  from finite_imageD[OF f i] show False by simp
qed

lemma lerp_seq_stops:
  assumes a: "nearest a = a" "\<bar>a\<bar> < 2 ^ 1022" and b: "nearest b = b" "\<bar>b\<bar> < 2 ^ 1022"
    and t: "nearest t = t" "0 < t" "t < 1"
  shows "\<exists>N. \<forall>k. lerp_seq (Num a) (Num b) (Num t) (N + k) = lerp_seq (Num a) (Num b) (Num t) N"
proof -
  define c where "c k = (case lerp_seq (Num a) (Num b) (Num t) k of Num x \<Rightarrow> x | _ \<Rightarrow> 0)" for k
  have ck: "lerp_seq (Num a) (Num b) (Num t) k = Num (c k)" for k
    using lerp_seq_between[OF assms, of k] by (auto simp: c_def)
  have inD: "c k \<in> {x. nearest x = x \<and> \<bar>x\<bar> \<le> 2 ^ 1022}" for k
  proof -
    from lerp_seq_between[OF assms, of k] ck[of k]
    have n: "nearest (c k) = c k" and bt: "a \<le> b \<longrightarrow> a \<le> c k \<and> c k \<le> b" "b \<le> a \<longrightarrow> b \<le> c k \<and> c k \<le> a"
      by auto
    from between_bounded[OF a(2) b(2) bt] n show ?thesis by simp
  qed
  have mono: "(a \<le> b \<longrightarrow> c k \<le> c (Suc k)) \<and> (b \<le> a \<longrightarrow> c (Suc k) \<le> c k)" for k
    using lerp_seq_monotone[OF assms, of k] by (simp only: ck) auto
  have "\<exists>N. c (Suc N) = c N"
  proof (cases "a \<le> b")
    case True
    with mono have "\<forall>k. c k \<le> c (Suc k)" by simp
    from monotone_in_finite_stops[OF finite_doubles _ this] inD show ?thesis by blast
  next
    case False
    with mono have m: "\<forall>k. - c k \<le> - c (Suc k)" by simp
    have "\<forall>k. - c k \<in> uminus ` {x. nearest x = x \<and> \<bar>x\<bar> \<le> 2 ^ 1022}" using inD by blast
    from monotone_in_finite_stops[OF _ this m] finite_doubles show ?thesis by auto
  qed
  then obtain N where N: "c (Suc N) = c N" ..
  have "lerp_seq (Num a) (Num b) (Num t) (N + k) = lerp_seq (Num a) (Num b) (Num t) N" for k
  proof (induction k)
    case 0
    show ?case by simp
  next
    case (Suc k)
    have "lerp_seq (Num a) (Num b) (Num t) (N + Suc k) = lerp (lerp_seq (Num a) (Num b) (Num t) (N + k)) (Num b) (Num t)"
      by simp
    also have "\<dots> = lerp_seq (Num a) (Num b) (Num t) (Suc N)" unfolding Suc by simp
    also have "\<dots> = lerp_seq (Num a) (Num b) (Num t) N" by (simp only: ck N)
    finally show ?case .
  qed
  then show ?thesis by blast
qed



lemma js_mul_NaN_right [simp]: "js_mul x NaN = NaN"
  by (cases x) simp_all

lemma js_add_NaN_right [simp]: "js_add x NaN = NaN"
  by (cases x) simp_all

subsection \<open>ParallaxField\<close>

lemma animate_fields:
  assumes "elements s = Some els"
  shows "animate s = Inr
     (s\<lparr>currentX := lerp (currentX s) (targetX s) LERP,
        currentY := lerp (currentY s) (targetY s) LERP,
        elements := Some (map (place (lerp (currentX s) (targetX s) LERP) (lerp (currentY s) (targetY s) LERP)) els),
        frames := insert (nextFrame s) (frames s), nextFrame := Suc (nextFrame s),
        rafId := Some (nextFrame s)\<rparr>)"
  using assms by (simp add: animate_def requestAnimationFrame_def Let_def)

lemma looping_frame:
  assumes "looping s"
  shows "\<exists>h els. rafId s = Some h \<and> elements s = Some els \<and>
     frame_fires h s = Some (Inr
       (s\<lparr>currentX := lerp (currentX s) (targetX s) LERP,
        currentY := lerp (currentY s) (targetY s) LERP,
        elements := Some (map (place (lerp (currentX s) (targetX s) LERP) (lerp (currentY s) (targetY s) LERP)) els),
        frames := {nextFrame s}, nextFrame := Suc (nextFrame s),
        rafId := Some (nextFrame s)\<rparr>))"
proof -
  from assms obtain h els where h: "rafId s = Some h" "frames s = {h}" "elements s = Some els"
    by (auto simp: looping_def split: option.splits)
  have "elements (s\<lparr>frames := frames s - {h}\<rparr>) = Some els" using h by simp
  from animate_fields[OF this] h show ?thesis
    by (simp add: frame_fires_def)
qed

lemma run_frames_looping:
  assumes "looping s"
  shows "\<exists>s'. run_frames n s = Inr s' \<and> looping s' \<and>
     currentX s' = lerp_seq (currentX s) (targetX s) LERP n \<and>
     currentY s' = lerp_seq (currentY s) (targetY s) LERP n \<and>
     targetX s' = targetX s \<and> targetY s' = targetY s \<and> listeners s' = listeners s"
  using assms
proof (induction n arbitrary: s)
  case 0
  then show ?case by simp
next
  case (Suc n)
  from looping_frame[OF Suc.prems] obtain h els s1 where
    h: "rafId s = Some h" "elements s = Some els" "frame_fires h s = Some (Inr s1)"
    and s1: "s1 = s\<lparr>currentX := lerp (currentX s) (targetX s) LERP,
        currentY := lerp (currentY s) (targetY s) LERP,
        elements := Some (map (place (lerp (currentX s) (targetX s) LERP) (lerp (currentY s) (targetY s) LERP)) els),
        frames := {nextFrame s}, nextFrame := Suc (nextFrame s),
        rafId := Some (nextFrame s)\<rparr>"
    by blast
  have l1: "looping s1" by (simp add: s1 looping_def)
  have shift: "lerp_seq (lerp a b t) b t n = lerp (lerp_seq a b t n) b t" for a b t
    by (induction n) simp_all
  from Suc.IH[OF l1] obtain s' where s': "run_frames n s1 = Inr s'" "looping s'"
     "currentX s' = lerp_seq (currentX s1) (targetX s1) LERP n"
     "currentY s' = lerp_seq (currentY s1) (targetY s1) LERP n"
     "targetX s' = targetX s1" "targetY s' = targetY s1" "listeners s' = listeners s1"
    by blast
  have "run_frames (Suc n) s = Inr s'" using h s'(1) by simp
  moreover have "currentX s' = lerp_seq (currentX s) (targetX s) LERP (Suc n)"
    using s'(3) by (simp add: s1 shift)
  moreover have "currentY s' = lerp_seq (currentY s) (targetY s) LERP (Suc n)"
    using s'(4) by (simp add: s1 shift)
  ultimately show ?case using s' by (simp add: s1)
qed

lemma LERP_val: "LERP = Num (1170935903116329 / 18014398509481984)"
  by (simp add: LERP_def rd_eval)

lemma LERP_double: "is_double (1170935903116329 / 18014398509481984)"
  by (simp add: is_double_def rd_eval)

lemma lerp_seq_doubles:
  assumes a: "is_double a" "\<bar>a\<bar> < 2 ^ 1022" and b: "is_double b" "\<bar>b\<bar> < 2 ^ 1022"
    and t: "is_double t" "0 < t" "t < 1"
  shows "\<exists>c. (\<forall>k. lerp_seq (Num a) (Num b) (Num t) k = Num (c k) \<and> is_double (c k)) \<and>
           (a \<le> b \<longrightarrow> (\<forall>k. c k \<le> c (Suc k) \<and> c k \<le> b)) \<and>
           (b \<le> a \<longrightarrow> (\<forall>k. c (Suc k) \<le> c k \<and> b \<le> c k)) \<and>
           (\<exists>N. \<forall>k. c (N + k) = c N)"
proof -
  note A = is_double_nearest[OF a(1)] a(2) is_double_nearest[OF b(1)] b(2) is_double_nearest[OF t(1)] t(2,3)
  define c where "c k = (case lerp_seq (Num a) (Num b) (Num t) k of Num x \<Rightarrow> x | _ \<Rightarrow> 0)" for k
  have ck: "lerp_seq (Num a) (Num b) (Num t) k = Num (c k)" for k
    using lerp_seq_between[OF A, of k] by (auto simp: c_def)
  have btw: "nearest (c k) = c k" "a \<le> b \<longrightarrow> a \<le> c k \<and> c k \<le> b" "b \<le> a \<longrightarrow> b \<le> c k \<and> c k \<le> a" for k
    using lerp_seq_between[OF A, of k] ck[of k] by auto
  have dbl: "is_double (c k)" for k
  proof (rule is_doubleI[OF btw(1)])
    have "\<bar>c k\<bar> < 2 ^ 1022" by (rule between_bounded[OF a(2) b(2) btw(2,3)])
    also have "(2::real) ^ 1022 < 2 ^ 1023" by simp
    finally show "\<bar>c k\<bar> < 2 ^ 1023" .
  qed
  have mono: "(a \<le> b \<longrightarrow> c k \<le> c (Suc k)) \<and> (b \<le> a \<longrightarrow> c (Suc k) \<le> c k)" for k
    using lerp_seq_monotone[OF A, of k] by (simp only: ck) auto
  from lerp_seq_stops[OF A] obtain N where
    N: "\<forall>k. lerp_seq (Num a) (Num b) (Num t) (N + k) = lerp_seq (Num a) (Num b) (Num t) N" ..
  have "c (N + k) = c N" for k
  proof -
    from N have "Num (c (N + k)) = Num (c N)" unfolding ck ..
    then show ?thesis by (simp only: jsnum.inject)
  qed
  then have "\<exists>N. \<forall>k. c (N + k) = c N" by blast
  with ck dbl btw mono show ?thesis by blast
qed

text \<open>
  C3, amended. One animation frame replaces the current offset by
  \<open>current + (target - current) * 0.065\<close> on each axis, in double arithmetic: the
  difference, the product and the sum are each rounded to the nearest double. \<open>n\<close> frames
  without a pointer event are \<open>n\<close> interpolation steps towards the unchanged target. For
  doubles well inside the finite range and any coefficient that is a double strictly
  between 0 and 1, every iterate is a double, each step moves towards the target and
  never past it, and after finitely many steps the offset no longer changes. It need
  not have reached the target by then.
\<close>

theorem lerp_step_monotone_bounded:
  "(elements s = Some els \<longrightarrow>
      (\<exists>s'. animate s = Inr s' \<and>
            currentX s' = js_add (currentX s) (js_mul (js_minus (targetX s) (currentX s)) (rd (65 / 1000))) \<and>
            currentY s' = js_add (currentY s) (js_mul (js_minus (targetY s) (currentY s)) (rd (65 / 1000))))) \<and>
   (looping s \<longrightarrow>
      (\<exists>s'. run_frames n s = Inr s' \<and> targetX s' = targetX s \<and> targetY s' = targetY s \<and>
            currentX s' = lerp_seq (currentX s) (targetX s) LERP n \<and>
            currentY s' = lerp_seq (currentY s) (targetY s) LERP n)) \<and>
   (is_double a \<and> \<bar>a\<bar> < 2 ^ 1022 \<and> is_double b \<and> \<bar>b\<bar> < 2 ^ 1022 \<and> is_double t \<and> 0 < t \<and> t < 1 \<longrightarrow>
      lerp (Num a) (Num b) (Num t) = Num (nearest (a + nearest (nearest (b - a) * t))) \<and>
      (\<exists>c. (\<forall>k. lerp_seq (Num a) (Num b) (Num t) k = Num (c k) \<and> is_double (c k)) \<and>
           (a \<le> b \<longrightarrow> (\<forall>k. c k \<le> c (Suc k) \<and> c k \<le> b)) \<and>
           (b \<le> a \<longrightarrow> (\<forall>k. c (Suc k) \<le> c k \<and> b \<le> c k)) \<and>
           (\<exists>N. \<forall>k. c (N + k) = c N)))"
proof -
  have 1: "\<exists>s'. animate s = Inr s' \<and>
            currentX s' = js_add (currentX s) (js_mul (js_minus (targetX s) (currentX s)) (rd (65 / 1000))) \<and>
            currentY s' = js_add (currentY s) (js_mul (js_minus (targetY s) (currentY s)) (rd (65 / 1000)))"
    if "elements s = Some els"
    by (simp add: animate_fields[OF that] lerp_def LERP_def)
  have 2: "\<exists>s'. run_frames n s = Inr s' \<and> targetX s' = targetX s \<and> targetY s' = targetY s \<and>
            currentX s' = lerp_seq (currentX s) (targetX s) LERP n \<and>
            currentY s' = lerp_seq (currentY s) (targetY s) LERP n" if "looping s"
    using run_frames_looping[OF that, of n] by blast
  have 3: "lerp (Num a) (Num b) (Num t) = Num (nearest (a + nearest (nearest (b - a) * t))) \<and>
      (\<exists>c. (\<forall>k. lerp_seq (Num a) (Num b) (Num t) k = Num (c k) \<and> is_double (c k)) \<and>
           (a \<le> b \<longrightarrow> (\<forall>k. c k \<le> c (Suc k) \<and> c k \<le> b)) \<and>
           (b \<le> a \<longrightarrow> (\<forall>k. c (Suc k) \<le> c k \<and> b \<le> c k)) \<and>
           (\<exists>N. \<forall>k. c (N + k) = c N))"
    if h: "is_double a" "\<bar>a\<bar> < 2 ^ 1022" "is_double b" "\<bar>b\<bar> < 2 ^ 1022" "is_double t" "0 < t" "t < 1"
    using lerp_finite[OF is_double_nearest[OF h(1)] h(2) is_double_nearest[OF h(3)] h(4) is_double_nearest[OF h(5)] h(6,7)]
      lerp_seq_doubles[OF h] by blast
  from 1 2 3 show ?thesis by blast
qed

lemma demo_field_looping: "looping demo_field"
  by (simp add: looping_def demo_field_def)

lemma lerp_demo:
  "lerp (Num 0) (Num 1) LERP = Num (1170935903116329 / 18014398509481984)"
  "lerp (Num 0) (Num (- 1)) LERP = Num (- (1170935903116329 / 18014398509481984))"
  "lerp (Num (1170935903116329 / 18014398509481984)) (Num 1) LERP = Num (4531521945060193 / 36028797018963968)"
  by (simp_all add: LERP_val lerp_def js_minus_def rd_eval)

lemma small_doubles: "is_double 0" "is_double 1"
  by (simp_all add: is_double_def rd_eval)

theorem lerp_step_monotone_bounded_witness:
  "(\<exists>s'. animate demo_field = Inr s' \<and> currentX s' = Num (1170935903116329 / 18014398509481984) \<and>
         currentY s' = Num (- (1170935903116329 / 18014398509481984))) \<and>
   (\<exists>s'. run_frames 2 demo_field = Inr s' \<and> currentX s' = Num (4531521945060193 / 36028797018963968)) \<and>
   is_double 0 \<and> is_double 1 \<and> is_double (1170935903116329 / 18014398509481984) \<and>
   (0::real) < 1170935903116329 / 18014398509481984 \<and> (1170935903116329 / 18014398509481984 :: real) < 1 \<and>
   (\<exists>c :: nat \<Rightarrow> real. lerp_seq (Num 0) (Num 1) (Num (1170935903116329 / 18014398509481984)) 1 = Num (c 1) \<and>
        c 0 = 0 \<and> c 1 = 1170935903116329 / 18014398509481984 \<and> c 1 \<le> c 2 \<and> c 2 \<le> 1 \<and>
        (\<exists>N. \<forall>k. c (N + k) = c N))"
proof -
  note T = lerp_step_monotone_bounded [of demo_field
      "[\<lparr>depth_attr = Some (js ''0.08''), transform = None\<rparr>, \<lparr>depth_attr = Some (js ''abc''), transform = None\<rparr>]"
      2 0 1 "1170935903116329 / 18014398509481984"]
  have a: "\<exists>s'. animate demo_field = Inr s' \<and> currentX s' = Num (1170935903116329 / 18014398509481984) \<and>
         currentY s' = Num (- (1170935903116329 / 18014398509481984))"
  proof -
    from T have "\<exists>s'. animate demo_field = Inr s' \<and>
        currentX s' = js_add (currentX demo_field) (js_mul (js_minus (targetX demo_field) (currentX demo_field)) (rd (65 / 1000))) \<and>
        currentY s' = js_add (currentY demo_field) (js_mul (js_minus (targetY demo_field) (currentY demo_field)) (rd (65 / 1000)))"
      by (simp add: demo_field_def)
    then show ?thesis
      using lerp_demo(1,2) by (simp add: demo_field_def lerp_def LERP_def)
  qed
  have b: "\<exists>s'. run_frames 2 demo_field = Inr s' \<and> currentX s' = Num (4531521945060193 / 36028797018963968)"
  proof -
    from T demo_field_looping have "\<exists>s'. run_frames 2 demo_field = Inr s' \<and>
        currentX s' = lerp_seq (currentX demo_field) (targetX demo_field) LERP 2"
      by blast
    then show ?thesis
      by (simp add: demo_field_def numeral_2_eq_2 lerp_demo del: run_frames.simps)
  qed
  have h: "(0::real) < 1170935903116329 / 18014398509481984" "(1170935903116329 / 18014398509481984 :: real) < 1"
    "\<bar>0::real\<bar> < 2 ^ 1022" "\<bar>1::real\<bar> < 2 ^ 1022"
    by simp_all
  from T small_doubles LERP_double h obtain c where
    c: "\<forall>k. lerp_seq (Num 0) (Num 1) (Num (1170935903116329 / 18014398509481984)) k = Num (c k) \<and> is_double (c k)"
      "\<forall>k. c k \<le> c (Suc k) \<and> c k \<le> 1" "\<exists>N. \<forall>k. c (N + k) = c N"
    by auto
  have "lerp_seq (Num 0) (Num 1) (Num (1170935903116329 / 18014398509481984)) 0 = Num 0" by simp
  with c(1) have c0: "c 0 = 0" by (metis jsnum.inject(1))
  have "lerp_seq (Num 0) (Num 1) (Num (1170935903116329 / 18014398509481984)) 1 = Num (1170935903116329 / 18014398509481984)"
    using lerp_demo(1) by (simp add: LERP_val)
  with c(1) have c1: "c 1 = 1170935903116329 / 18014398509481984" by (metis jsnum.inject(1))
  have c2: "c 1 \<le> c 2" "c 2 \<le> 1" using c(2) by (simp_all add: numeral_2_eq_2)
  have "\<exists>c :: nat \<Rightarrow> real. lerp_seq (Num 0) (Num 1) (Num (1170935903116329 / 18014398509481984)) 1 = Num (c 1) \<and>
        c 0 = 0 \<and> c 1 = 1170935903116329 / 18014398509481984 \<and> c 1 \<le> c 2 \<and> c 2 \<le> 1 \<and>
        (\<exists>N. \<forall>k. c (N + k) = c N)"
    using c(1,3) c0 c1 c2 by blast
  with a b small_doubles LERP_double h(1,2) show ?thesis by blast
qed

lemma stalled_step:
  "lerp (Num (1 - 7 / 2 ^ 53)) (Num 1) LERP = Num (1 - 7 / 2 ^ 53)"
  "lerp (Num (- (1 - 7 / 2 ^ 53))) (Num (- 1)) LERP = Num (- (1 - 7 / 2 ^ 53))"
  by (simp_all add: LERP_val lerp_def js_minus_def rd_eval)

lemma stalled_seq:
  "lerp_seq (Num (1 - 7 / 2 ^ 53)) (Num 1) LERP n = Num (1 - 7 / 2 ^ 53)"
  "lerp_seq (Num (- (1 - 7 / 2 ^ 53))) (Num (- 1)) LERP n = Num (- (1 - 7 / 2 ^ 53))"
  by (induction n) (simp_all only: lerp_seq.simps stalled_step)

lemma stalled_field_looping: "looping stalled_field"
  by (simp add: looping_def stalled_field_def demo_field_def)

text \<open>
  C3 as claimed fails in double arithmetic: the offsets need not converge to the target.
  With the target at 1 and the current offset at \<open>1 - 7 * 2^-53\<close>
  (\<open>0.9999999999999992\<close>), the step \<open>(1 - current) * 0.065\<close> is less than half the spacing
  of the doubles there, the sum rounds back to the current offset, and every later frame
  leaves it where it is, short of the target.
\<close>

theorem lerp_stalls_short_of_target:
  "is_double (1 - 7 / 2 ^ 53) \<and> (1 - 7 / 2 ^ 53 :: real) < 1 \<and>
   LERP = Num (1170935903116329 / 18014398509481984) \<and>
   lerp (Num (1 - 7 / 2 ^ 53)) (Num 1) LERP = Num (1 - 7 / 2 ^ 53) \<and>
   (\<forall>n. lerp_seq (Num (1 - 7 / 2 ^ 53)) (Num 1) LERP n = Num (1 - 7 / 2 ^ 53)) \<and>
   targetX stalled_field = Num 1 \<and>
   (\<forall>n. \<exists>s'. run_frames n stalled_field = Inr s' \<and> targetX s' = Num 1 \<and>
              currentX s' = Num (1 - 7 / 2 ^ 53))"
proof -
  have d: "is_double (1 - 7 / 2 ^ 53)" by (simp add: is_double_def rd_eval)
  have f: "\<exists>s'. run_frames n stalled_field = Inr s' \<and> targetX s' = Num 1 \<and>
              currentX s' = Num (1 - 7 / 2 ^ 53)" for n
  proof -
    from run_frames_looping[OF stalled_field_looping, of n] obtain s' where
      s': "run_frames n stalled_field = Inr s'"
        "currentX s' = lerp_seq (currentX stalled_field) (targetX stalled_field) LERP n"
        "targetX s' = targetX stalled_field"
      by blast
    have v: "currentX stalled_field = Num (1 - 7 / 2 ^ 53)" "targetX stalled_field = Num 1"
      by (simp_all add: stalled_field_def demo_field_def)
    from s' show ?thesis unfolding v stalled_seq by blast
  qed
  have t: "targetX stalled_field = Num 1" by (simp add: stalled_field_def demo_field_def)
  from d LERP_val stalled_step(1) stalled_seq(1) t f show ?thesis by simp
qed











lemma destroy_fields:
  "destroy s = Inr (s\<lparr>listeners := filter (\<lambda>l. l \<noteq> (js ''resize'', OnResize))
                                   (filter (\<lambda>l. l \<noteq> (js ''mousemove'', OnMouseMove)) (listeners s)),
                     frames := frames s - set_option (rafId s)\<rparr>)"
  by (cases "rafId s") (simp_all add: destroy_def removeEventListener_def cancelAnimationFrame_def)

lemma destroy_any:
  "\<exists>s'. destroy s = Inr s' \<and>
        set (listeners s') = set (listeners s) - {(js ''mousemove'', OnMouseMove), (js ''resize'', OnResize)} \<and>
        frames s' = frames s - set_option (rafId s) \<and> rafId s' = rafId s \<and> destroy s' = Inr s'"
proof -
  let ?s' = "s\<lparr>listeners := filter (\<lambda>l. l \<noteq> (js ''resize'', OnResize))
                                   (filter (\<lambda>l. l \<noteq> (js ''mousemove'', OnMouseMove)) (listeners s)),
                     frames := frames s - set_option (rafId s)\<rparr>"
  have "destroy ?s' = Inr ?s'"
    unfolding destroy_fields[of ?s'] by (simp add: Diff_eq cong: conj_cong)
  moreover have "set (listeners ?s') = set (listeners s) - {(js ''mousemove'', OnMouseMove), (js ''resize'', OnResize)}"
    by auto
  ultimately show ?thesis
    unfolding destroy_fields[of s] by simp
qed

lemma destroy_loaded: "destroy parallax_loaded = Inr parallax_loaded"
  unfolding destroy_fields by (simp add: parallax_loaded_def)

lemma init_idle:
  assumes "found = [] \<or> touchOnly"
  shows "parallax_init found touchOnly parallax_loaded = Inr (parallax_loaded\<lparr>elements := Some found\<rparr>)"
  using assms by (auto simp: parallax_init_def)

lemma event_names_differ: "js ''mousemove'' \<noteq> js ''resize''"
  by (simp add: js_def)

lemma init_started:
  assumes "found \<noteq> []" "\<not> touchOnly"
  shows "parallax_init found touchOnly parallax_loaded =
     Inr (parallax_loaded\<lparr>elements := Some found,
            listeners := [(js ''mousemove'', OnMouseMove), (js ''resize'', OnResize)],
            frames := {1}, nextFrame := 2, rafId := Some 1\<rparr>)"
  using assms
  by (simp add: parallax_init_def addEventListener_def requestAnimationFrame_def Let_def parallax_loaded_def)

text \<open>
  C9. \<open>destroy\<close> returns normally in every state, leaves neither of the two
  listeners registered, and cancels the request \<open>rafId\<close> names; a second call changes
  nothing. Called before \<open>init\<close>, or after an \<open>init\<close> that returned early (no element, or
  a touch-only device), it changes nothing. Called after \<open>init\<close> started the loop and any
  number of frames ran, it leaves no listener and no pending frame, so no frame fires.
\<close>

theorem destroy_is_safe:
  "(\<exists>s'. destroy s = Inr s' \<and>
        set (listeners s') =
          set (listeners s) - {(js ''mousemove'', OnMouseMove), (js ''resize'', OnResize)} \<and>
        frames s' = frames s - set_option (rafId s) \<and> destroy s' = Inr s') \<and>
   destroy parallax_loaded = Inr parallax_loaded \<and>
   (found = [] \<or> touchOnly \<longrightarrow>
      (\<exists>s1. parallax_init found touchOnly parallax_loaded = Inr s1 \<and> listeners s1 = [] \<and>
            frames s1 = {} \<and> destroy s1 = Inr s1)) \<and>
   (found \<noteq> [] \<and> \<not> touchOnly \<longrightarrow>
      (\<exists>s1 sN s'. parallax_init found touchOnly parallax_loaded = Inr s1 \<and>
            run_frames n s1 = Inr sN \<and> frames sN \<noteq> {} \<and>
            listeners sN = [(js ''mousemove'', OnMouseMove), (js ''resize'', OnResize)] \<and>
            destroy sN = Inr s' \<and> listeners s' = [] \<and> frames s' = {} \<and>
            (\<forall>h. frame_fires h s' = None)))"
proof -
  have 1: "\<exists>s'. destroy s = Inr s' \<and>
        set (listeners s') =
          set (listeners s) - {(js ''mousemove'', OnMouseMove), (js ''resize'', OnResize)} \<and>
        frames s' = frames s - set_option (rafId s) \<and> destroy s' = Inr s'"
    using destroy_any[of s] by blast
  have 3: "\<exists>s1. parallax_init found touchOnly parallax_loaded = Inr s1 \<and> listeners s1 = [] \<and>
            frames s1 = {} \<and> destroy s1 = Inr s1" if "found = [] \<or> touchOnly"
    unfolding init_idle[OF that] destroy_fields by (simp add: parallax_loaded_def)
  have 4: "\<exists>s1 sN s'. parallax_init found touchOnly parallax_loaded = Inr s1 \<and>
            run_frames n s1 = Inr sN \<and> frames sN \<noteq> {} \<and>
            listeners sN = [(js ''mousemove'', OnMouseMove), (js ''resize'', OnResize)] \<and>
            destroy sN = Inr s' \<and> listeners s' = [] \<and> frames s' = {} \<and>
            (\<forall>h. frame_fires h s' = None)" if f: "found \<noteq> []" "\<not> touchOnly"
  proof -
    let ?s1 = "parallax_loaded\<lparr>elements := Some found,
            listeners := [(js ''mousemove'', OnMouseMove), (js ''resize'', OnResize)],
            frames := {1}, nextFrame := 2, rafId := Some 1\<rparr>"
    have "looping ?s1" by (simp add: looping_def)
    from run_frames_looping[OF this, of n] obtain sN where
      sN: "run_frames n ?s1 = Inr sN" "looping sN" "listeners sN = listeners ?s1"
      by blast
    from sN(2) obtain h where h: "rafId sN = Some h" "frames sN = {h}"
      by (auto simp: looping_def split: option.splits)
    let ?s' = "sN\<lparr>listeners := filter (\<lambda>l. l \<noteq> (js ''resize'', OnResize))
                                   (filter (\<lambda>l. l \<noteq> (js ''mousemove'', OnMouseMove)) (listeners sN)),
                     frames := frames sN - set_option (rafId sN)\<rparr>"
    have a: "listeners ?s' = []" using sN(3) by simp
    have b: "frames ?s' = {}" using h by simp
    have c: "\<forall>k. frame_fires k ?s' = None" unfolding frame_fires_def b by simp
    have d: "frames sN \<noteq> {}" using h by simp
    have e: "listeners sN = [(js ''mousemove'', OnMouseMove), (js ''resize'', OnResize)]"
      using sN(3) by simp
    show ?thesis
      unfolding init_started[OF f]
      using sN(1) d e destroy_fields[of sN] a b c by blast
  qed
  from 1 destroy_loaded 3 4 show ?thesis by blast
qed

theorem destroy_is_safe_witness:
  "(\<exists>s1. parallax_init [] False parallax_loaded = Inr s1 \<and> listeners s1 = [] \<and> frames s1 = {} \<and>
        destroy s1 = Inr s1) \<and>
   (\<exists>s1 sN s'. parallax_init [\<lparr>depth_attr = Some (js ''0.08''), transform = None\<rparr>] False parallax_loaded = Inr s1 \<and>
        run_frames 3 s1 = Inr sN \<and> frames sN \<noteq> {} \<and>
        destroy sN = Inr s' \<and> listeners s' = [] \<and> frames s' = {}) \<and>
   (\<exists>s'. destroy demo_field = Inr s' \<and> listeners s' = [] \<and> frames s' = {})"
proof -
  have a: "\<exists>s1. parallax_init [] False parallax_loaded = Inr s1 \<and> listeners s1 = [] \<and> frames s1 = {} \<and>
        destroy s1 = Inr s1"
    using destroy_is_safe [of parallax_loaded "[]" False 0] by simp
  have b: "\<exists>s1 sN s'. parallax_init [\<lparr>depth_attr = Some (js ''0.08''), transform = None\<rparr>] False parallax_loaded = Inr s1 \<and>
        run_frames 3 s1 = Inr sN \<and> frames sN \<noteq> {} \<and>
        destroy sN = Inr s' \<and> listeners s' = [] \<and> frames s' = {}"
    using destroy_is_safe [of parallax_loaded "[\<lparr>depth_attr = Some (js ''0.08''), transform = None\<rparr>]" False 3]
    by simp blast
  from destroy_is_safe [of demo_field "[]" False 0]
  obtain s' where s': "destroy demo_field = Inr s'"
    "set (listeners s') = set (listeners demo_field) - {(js ''mousemove'', OnMouseMove), (js ''resize'', OnResize)}"
    "frames s' = frames demo_field - set_option (rafId demo_field)"
    by blast
  have "listeners s' = []" "frames s' = {}"
    using s'(2,3) by (simp_all add: demo_field_def)
  with s'(1) a b show ?thesis by blast
qed

subsection \<open>OrbInit\<close>











lemma length_orb_init: "length (orb_init random k els) = length els"
  by (induction els arbitrary: k) simp_all













subsection \<open>Regular expressions and Utils.isValidEmail\<close>

lemmas email_eval = isValidEmail_def trim_def email_re_def one_or_more_def two_or_more_def js_def
  isWhiteSpace_def notSpaceAt_def

inductive_simps denotes_Fail [simp]: "denotes Fail w"
inductive_simps denotes_Eps [simp]: "denotes Eps w"
inductive_simps denotes_Cls: "denotes (Cls P) w"
inductive_simps denotes_Alt [simp]: "denotes (Alt r s) w"
inductive_simps denotes_Seq: "denotes (Seq r s) w"

lemma nullable_denotes: "nullable r \<Longrightarrow> denotes r []"
proof (induction r)
  case (Seq r s)
  then have "denotes r []" "denotes s []" by simp_all
  from d_seq[OF this] show ?case by simp
qed (auto intro: denotes.intros)

lemma denotes_empty_nullable: "denotes r w \<Longrightarrow> w = [] \<Longrightarrow> nullable r"
  by (induction rule: denotes.induct) simp_all

lemma after_sound: "denotes (after c r) w \<Longrightarrow> denotes r (c # w)"
proof (induction r arbitrary: w)
  case (Cls P)
  then have "P c" "w = []" by (simp_all split: if_splits)
  then show ?case by (simp add: d_cls)
next
  case (Alt r s)
  then show ?case by (auto intro: d_alt1 d_alt2)
next
  case (Seq r s)
  have left: "denotes (Seq r s) (c # w)" if "denotes (Seq (after c r) s) w"
  proof -
    from that obtain u v where uv: "w = u @ v" "denotes (after c r) u" "denotes s v"
      by (auto simp: denotes_Seq)
    from d_seq[OF Seq.IH(1)[OF uv(2)] uv(3)] uv(1) show ?thesis by simp
  qed
  have right: "denotes (Seq r s) (c # w)" if "nullable r" "denotes (after c s) w"
    using d_seq[OF nullable_denotes[OF that(1)] Seq.IH(2)[OF that(2)]] by simp
  from Seq.prems left right show ?case by (auto split: if_splits)
next
  case (Rep r)
  then obtain u v where uv: "w = u @ v" "denotes (after c r) u" "denotes (Rep r) v"
    by (auto simp: denotes_Seq)
  from d_rep[OF Rep.IH[OF uv(2)] uv(3)] uv(1) show ?case by simp
qed simp_all

lemma after_complete: "denotes r x \<Longrightarrow> x = c # w \<Longrightarrow> denotes (after c r) w"
proof (induction arbitrary: w rule: denotes.induct)
  case (d_seq r u s v)
  show ?case
  proof (cases u)
    case Nil
    with d_seq.prems have "v = c # w" by simp
    from d_seq.IH(2)[OF this] denotes_empty_nullable[OF d_seq.hyps(1) Nil] show ?thesis by simp
  next
    case (Cons a u')
    with d_seq.prems have w: "a = c" "w = u' @ v" by simp_all
    from d_seq.IH(1)[of u'] Cons w have "denotes (after c r) u'" by simp
    from denotes.d_seq[OF this d_seq.hyps(2)] w show ?thesis by simp
  qed
next
  case (d_rep r u v)
  show ?case
  proof (cases u)
    case Nil
    with d_rep.prems have "v = c # w" by simp
    from d_rep.IH(2)[OF this] show ?thesis .
  next
    case (Cons a u')
    with d_rep.prems have w: "a = c" "w = u' @ v" by simp_all
    from d_rep.IH(1)[of u'] Cons w have "denotes (after c r) u'" by simp
    from denotes.d_seq[OF this d_rep.hyps(2)] w show ?thesis by simp
  qed
qed (auto intro: denotes.intros)

lemma regex_test_denotes: "regex_test r w \<longleftrightarrow> denotes r w"
proof (induction w arbitrary: r)
  case Nil
  show ?case using nullable_denotes denotes_empty_nullable by auto
next
  case (Cons c w)
  show ?case using Cons.IH[of "after c r"] after_sound after_complete by auto
qed

lemma rep_cls_all: "denotes r w \<Longrightarrow> r = Rep (Cls P) \<Longrightarrow> list_all P w"
  by (induction rule: denotes.induct) (auto simp: denotes_Cls)

lemma all_rep_cls: "list_all P w \<Longrightarrow> denotes (Rep (Cls P)) w"
proof (induction w)
  case Nil
  show ?case by (rule d_rep0)
next
  case (Cons c w)
  then have "denotes (Cls P) [c]" "denotes (Rep (Cls P)) w" by (simp_all add: d_cls)
  from d_rep[OF this] show ?case by simp
qed

lemma denotes_rep_cls: "denotes (Rep (Cls P)) w \<longleftrightarrow> list_all P w"
  using rep_cls_all all_rep_cls by blast

lemma denotes_cls_seq:
  "denotes (Seq (Cls P) r) w \<longleftrightarrow> (\<exists>c v. w = c # v \<and> P c \<and> denotes r v)"
proof
  assume "denotes (Seq (Cls P) r) w"
  then obtain u v where "w = u @ v" "denotes (Cls P) u" "denotes r v"
    unfolding denotes_Seq by blast
  then show "\<exists>c v. w = c # v \<and> P c \<and> denotes r v"
    by (auto simp: denotes_Cls)
next
  assume "\<exists>c v. w = c # v \<and> P c \<and> denotes r v"
  then obtain c v where cv: "w = c # v" "P c" "denotes r v" by blast
  from d_seq[OF d_cls[of P, OF cv(2)] cv(3)] cv(1) show "denotes (Seq (Cls P) r) w" by simp
qed

lemma denotes_one_or_more: "denotes (one_or_more (Cls P)) w \<longleftrightarrow> w \<noteq> [] \<and> list_all P w"
  by (cases w) (simp_all add: one_or_more_def denotes_cls_seq denotes_rep_cls)

lemma denotes_two_or_more: "denotes (two_or_more (Cls P)) w \<longleftrightarrow> 2 \<le> length w \<and> list_all P w"
proof (cases w)
  case Nil
  then show ?thesis by (simp add: two_or_more_def denotes_cls_seq)
next
  case (Cons a w')
  then show ?thesis
    by (cases w') (simp_all add: two_or_more_def denotes_cls_seq denotes_rep_cls)
qed

lemma denotes_email:
  "denotes email_re w \<longleftrightarrow>
     (\<exists>L D T. w = L @ [of_char CHR ''@''] @ D @ [of_char CHR ''.''] @ T \<and> L \<noteq> [] \<and> D \<noteq> [] \<and>
        2 \<le> length T \<and> list_all notSpaceAt L \<and> list_all notSpaceAt D \<and> list_all notSpaceAt T)"
proof
  assume "denotes email_re w"
  then obtain L v1 where 1: "w = L @ v1" "denotes (one_or_more (Cls notSpaceAt)) L"
    and r1: "denotes (Seq (Cls (\<lambda>c. c = of_char CHR ''@''))
          (Seq (one_or_more (Cls notSpaceAt))
             (Seq (Cls (\<lambda>c. c = of_char CHR ''.''))
                (two_or_more (Cls notSpaceAt))))) v1"
    unfolding email_re_def denotes_Seq[of "one_or_more (Cls notSpaceAt)"] by blast
  from r1 obtain v2 where 2: "v1 = of_char CHR ''@'' # v2"
    and r2: "denotes (Seq (one_or_more (Cls notSpaceAt))
             (Seq (Cls (\<lambda>c. c = of_char CHR ''.''))
                (two_or_more (Cls notSpaceAt)))) v2"
    unfolding denotes_cls_seq by blast
  from r2 obtain D v3 where 3: "v2 = D @ v3" "denotes (one_or_more (Cls notSpaceAt)) D"
    and r3: "denotes (Seq (Cls (\<lambda>c. c = of_char CHR ''.'')) (two_or_more (Cls notSpaceAt))) v3"
    unfolding denotes_Seq[of "one_or_more (Cls notSpaceAt)"] by blast
  from r3 obtain T where 4: "v3 = of_char CHR ''.'' # T" "denotes (two_or_more (Cls notSpaceAt)) T"
    unfolding denotes_cls_seq by blast
  have "w = L @ [of_char CHR ''@''] @ D @ [of_char CHR ''.''] @ T"
    using 1(1) 2 3(1) 4(1) by simp
  with 1(2) 3(2) 4(2)
  show "\<exists>L D T. w = L @ [of_char CHR ''@''] @ D @ [of_char CHR ''.''] @ T \<and> L \<noteq> [] \<and> D \<noteq> [] \<and>
        2 \<le> length T \<and> list_all notSpaceAt L \<and> list_all notSpaceAt D \<and> list_all notSpaceAt T"
    unfolding denotes_one_or_more denotes_two_or_more by blast
next
  assume "\<exists>L D T. w = L @ [of_char CHR ''@''] @ D @ [of_char CHR ''.''] @ T \<and> L \<noteq> [] \<and> D \<noteq> [] \<and>
        2 \<le> length T \<and> list_all notSpaceAt L \<and> list_all notSpaceAt D \<and> list_all notSpaceAt T"
  then obtain L D T where w: "w = L @ [of_char CHR ''@''] @ D @ [of_char CHR ''.''] @ T"
    and L: "denotes (one_or_more (Cls notSpaceAt)) L"
    and D: "denotes (one_or_more (Cls notSpaceAt)) D"
    and T: "denotes (two_or_more (Cls notSpaceAt)) T"
    unfolding denotes_one_or_more denotes_two_or_more by blast
  have "denotes (Seq (Cls (\<lambda>c. c = of_char CHR ''.'')) (two_or_more (Cls notSpaceAt))) (of_char CHR ''.'' # T)"
    unfolding denotes_cls_seq using T by blast
  from d_seq[OF D this]
  have "denotes (Seq (Cls (\<lambda>c. c = of_char CHR ''@''))
          (Seq (one_or_more (Cls notSpaceAt))
             (Seq (Cls (\<lambda>c. c = of_char CHR ''.''))
                (two_or_more (Cls notSpaceAt))))) (of_char CHR ''@'' # D @ of_char CHR ''.'' # T)"
    unfolding denotes_cls_seq by blast
  from d_seq[OF L this] show "denotes email_re w"
    unfolding email_re_def w by simp
qed

lemma dropWhile_unchanged: "xs = [] \<or> \<not> P (hd xs) \<Longrightarrow> dropWhile P xs = xs"
  by (cases xs) auto

lemma trim_ends:
  assumes "trim s \<noteq> []"
  shows "\<not> isWhiteSpace (hd (trim s))" and "\<not> isWhiteSpace (last (trim s))"
proof -
  let ?a = "dropWhile isWhiteSpace s"
  let ?b = "dropWhile isWhiteSpace (rev ?a)"
  from assms have b: "?b \<noteq> []" by (simp add: trim_def)
  have a: "?a \<noteq> []"
  proof
    assume e: "?a = []"
    have "?b = []" unfolding e by simp
    with b show False by (rule notE)
  qed
  have "rev ?a = takeWhile isWhiteSpace (rev ?a) @ ?b" by simp
  with b have "last (rev ?a) = last ?b" by (metis last_appendR)
  then have "last ?b = hd ?a" using a by (simp add: last_rev)
  moreover have "\<not> isWhiteSpace (hd ?a)" using a by (rule hd_dropWhile)
  ultimately show "\<not> isWhiteSpace (hd (trim s))"
    using b by (simp add: trim_def hd_rev)
  have "\<not> isWhiteSpace (hd ?b)" using b by (rule hd_dropWhile)
  then show "\<not> isWhiteSpace (last (trim s))"
    using b by (simp add: trim_def last_rev)
qed

lemma trim_idem: "trim (trim s) = trim s"
proof (cases "trim s = []")
  case True
  then show ?thesis by (simp add: trim_def[of "[]"])
next
  case False
  from trim_ends[OF False] have 1: "dropWhile isWhiteSpace (trim s) = trim s"
    by (intro dropWhile_unchanged) simp
  from trim_ends[OF False] False have 2: "dropWhile isWhiteSpace (rev (trim s)) = rev (trim s)"
    by (intro dropWhile_unchanged) (simp add: hd_rev)
  show ?thesis
    unfolding trim_def[of "trim s"] 1 2 by simp
qed

lemma isValidEmail_trim: "isValidEmail (trim s) = isValidEmail s"
  by (simp add: isValidEmail_def trim_idem)

subsection \<open>SubscribeForm\<close>

lemma email_examples:
  "isValidEmail (js ''a@b.co'')" "\<not> isValidEmail (js '''')" "\<not> isValidEmail (js ''no-at-sign'')"
  "\<not> isValidEmail (js ''a@b'')" "\<not> isValidEmail (js ''a@b.'')"
  by (simp_all add: email_eval)

lemma isValidEmail_iff:
  "isValidEmail e \<longleftrightarrow>
     (\<exists>L D T. trim e = L @ [of_char CHR ''@''] @ D @ [of_char CHR ''.''] @ T \<and> L \<noteq> [] \<and> D \<noteq> [] \<and>
        2 \<le> length T \<and> list_all notSpaceAt L \<and> list_all notSpaceAt D \<and> list_all notSpaceAt T)"
  unfolding isValidEmail_def regex_test_denotes denotes_email ..

lemma resetState_value [simp]: "emailValue (resetState s) = emailValue s"
  by (simp add: resetState_def setMessage_def)

lemma resetState_button [simp]: "btnDisabled (resetState s) = btnDisabled s" "btnText (resetState s) = btnText s"
  by (simp_all add: resetState_def setMessage_def)

lemma validation_error_fields:
  "msgText (validation_error t s) = t" "focused (validation_error t s)"
  "js ''is-error'' \<in> set (wrapClasses (validation_error t s))"
  "btnDisabled (validation_error t s) = btnDisabled s" "btnText (validation_error t s) = btnText s"
  "emailValue (validation_error t s) = emailValue s"
  by (simp_all add: validation_error_def setMessage_def classList_add_def js_def)

lemma start_empty:
  assumes "trim (emailValue s) = []"
  shows "onSubmit_start s = Returned (validation_error (js ''Please enter your email address.'') (resetState s))"
  using assms by (simp add: onSubmit_start_def Let_def)

lemma start_malformed:
  assumes "trim (emailValue s) \<noteq> []" "\<not> isValidEmail (emailValue s)"
  shows "onSubmit_start s = Returned (validation_error (js ''Please enter a valid email address.'') (resetState s))"
  using assms by (simp add: onSubmit_start_def Let_def isValidEmail_trim)

lemma valid_not_empty: "isValidEmail e \<Longrightarrow> trim e \<noteq> []"
  unfolding isValidEmail_iff by auto

lemma start_valid:
  assumes "isValidEmail (emailValue s)"
  shows "\<exists>s1. onSubmit_start s = Awaiting (trim (emailValue s)) s1 \<and> btnDisabled s1 \<and>
           btnText s1 = js ''Sending'' @ [0x2026] \<and> emailValue s1 = emailValue s"
  using assms valid_not_empty[OF assms]
  by (simp add: onSubmit_start_def Let_def isValidEmail_trim setMessage_def)

lemma start_cases:
  "onSubmit_start s = Awaiting email s1 \<Longrightarrow>
     isValidEmail (emailValue s) \<and> email = trim (emailValue s) \<and> btnDisabled s1 \<and>
     btnText s1 = js ''Sending'' @ [0x2026]"
  by (auto simp: onSubmit_start_def Let_def isValidEmail_trim setMessage_def split: if_splits)

lemma settle_cleanup:
  "\<not> btnDisabled (onSubmit_settle outcome s)" "btnText (onSubmit_settle outcome s) = js ''Notify Me''"
  by (simp_all add: onSubmit_settle_def Let_def)

lemma messages_differ: "js ''Please enter your email address.'' \<noteq> js ''Please enter a valid email address.''"
  by (simp add: js_def)

lemma takeWhile_short: "x \<in> set xs \<Longrightarrow> \<not> P x \<Longrightarrow> length (takeWhile P xs) < length xs"
  by (induction xs) auto

lemma split_at_first:
  assumes "length (takeWhile P w) < length w"
  shows "w = takeWhile P w @ hd (dropWhile P w) # drop (Suc (length (takeWhile P w))) w"
    and "\<not> P (hd (dropWhile P w))"
proof -
  have ne: "dropWhile P w \<noteq> []"
  proof
    assume e: "dropWhile P w = []"
    have "takeWhile P w @ dropWhile P w = w" by (rule takeWhile_dropWhile_id)
    then have "takeWhile P w = w" unfolding e by simp
    with assms show False by simp
  qed
  then show "\<not> P (hd (dropWhile P w))" by (rule hd_dropWhile)
  have "drop (Suc (length (takeWhile P w))) w = tl (dropWhile P w)"
    by (simp add: dropWhile_eq_drop drop_Suc tl_drop)
  with ne have "hd (dropWhile P w) # drop (Suc (length (takeWhile P w))) w = dropWhile P w"
    by simp
  then show "w = takeWhile P w @ hd (dropWhile P w) # drop (Suc (length (takeWhile P w))) w"
    by (simp only: takeWhile_dropWhile_id)
qed

lemma split_at_last_dot:
  assumes "of_char CHR ''.'' \<in> set ds"
  shows "\<exists>D. ds = D @ [of_char CHR ''.''] @ after_last_dot ds"
proof -
  let ?P = "\<lambda>c::code_unit. c \<noteq> of_char CHR ''.''"
  let ?t = "takeWhile ?P (rev ds)"
  let ?r = "drop (Suc (length ?t)) (rev ds)"
  from assms have "length ?t < length (rev ds)"
    by (intro takeWhile_short[of "of_char CHR ''.''"]) simp_all
  from split_at_first[OF this] have "rev ds = ?t @ of_char CHR ''.'' # ?r"
    by simp
  then have "rev (rev ds) = rev (?t @ of_char CHR ''.'' # ?r)"
    by (rule arg_cong)
  then have "ds = rev ?r @ [of_char CHR ''.''] @ rev ?t"
    by (simp only: rev_rev_ident rev_append rev.simps append_assoc append_Nil)
  then show ?thesis
    unfolding after_last_dot_def by (rule exI)
qed

lemma spec_shape_is_accepted:
  assumes "spec_email_shape (trim e)"
  shows "isValidEmail e"
proof -
  define w where "w = trim e"
  define loc where "loc = takeWhile (\<lambda>c::code_unit. c \<noteq> of_char CHR ''@'') w"
  define dm where "dm = drop (Suc (length loc)) w"
  define tld where "tld = after_last_dot dm"
  from assms have s: "loc \<noteq> []" "length loc < length w" "list_all notSpaceAt loc"
    "list_all notSpaceAt dm" "of_char CHR ''.'' \<in> set dm" "2 \<le> length tld"
    "Suc (length tld) < length dm"
    by (simp_all add: spec_email_shape_def Let_def w_def loc_def dm_def tld_def)
  from split_at_first[of "\<lambda>c::code_unit. c \<noteq> of_char CHR ''@''" w] s(2)
  have w: "w = loc @ [of_char CHR ''@''] @ dm"
    unfolding loc_def dm_def by simp
  from split_at_last_dot[OF s(5)] obtain D where D: "dm = D @ [of_char CHR ''.''] @ tld"
    unfolding tld_def by blast
  have "D \<noteq> []"
  proof
    assume "D = []"
    with D have "length dm = Suc (length tld)" by simp
    with s(7) show False by simp
  qed
  moreover from s(4) have "list_all notSpaceAt D" "list_all notSpaceAt tld"
    unfolding D by simp_all
  moreover have "w = loc @ [of_char CHR ''@''] @ D @ [of_char CHR ''.''] @ tld"
    using w D by simp
  ultimately have "\<exists>L D T. trim e = L @ [of_char CHR ''@''] @ D @ [of_char CHR ''.''] @ T \<and> L \<noteq> [] \<and> D \<noteq> [] \<and>
        2 \<le> length T \<and> list_all notSpaceAt L \<and> list_all notSpaceAt D \<and> list_all notSpaceAt T"
    using s(1,3,6) unfolding w_def[symmetric] by blast
  then show ?thesis
    unfolding isValidEmail_iff .
qed

text \<open>
  C5, amended. \<open>isValidEmail\<close> accepts exactly the strings that, trimmed, read
  \<open>L@D.T\<close> with \<open>L\<close> and \<open>D\<close> non-empty, \<open>T\<close> of at least 2 characters, and no white space
  or \<open>@\<close> in \<open>L\<close>, \<open>D\<close>, \<open>T\<close> (dots are allowed in all three); every string of the shape
  the specification describes is among them. \<open>a@b.co\<close> passes; the empty
  string, \<open>no-at-sign\<close>, \<open>a@b\<close> and \<open>a@b.\<close> fail. The handler checks for empty input
  first, with a message of its own, then the format; on either failure it returns
  without reaching \<open>sendToApi\<close>, whatever \<open>sendToApi\<close> is.
\<close>

theorem email_validation:
  "(isValidEmail e \<longleftrightarrow>
     (\<exists>L D T. trim e = L @ [of_char CHR ''@''] @ D @ [of_char CHR ''.''] @ T \<and> L \<noteq> [] \<and> D \<noteq> [] \<and>
        2 \<le> length T \<and> list_all notSpaceAt L \<and> list_all notSpaceAt D \<and> list_all notSpaceAt T)) \<and>
   isValidEmail (js ''a@b.co'') \<and> \<not> isValidEmail (js '''') \<and> \<not> isValidEmail (js ''no-at-sign'') \<and>
   \<not> isValidEmail (js ''a@b'') \<and> \<not> isValidEmail (js ''a@b.'') \<and>
   (trim (emailValue s) = [] \<longrightarrow>
      (\<exists>s'. onSubmit_start s = Returned s' \<and> onSubmit api s = s' \<and>
         msgText s' = js ''Please enter your email address.'' \<and> focused s' \<and>
         js ''is-error'' \<in> set (wrapClasses s'))) \<and>
   (trim (emailValue s) \<noteq> [] \<and> \<not> isValidEmail (emailValue s) \<longrightarrow>
      (\<exists>s'. onSubmit_start s = Returned s' \<and> onSubmit api s = s' \<and>
         msgText s' = js ''Please enter a valid email address.'' \<and> focused s' \<and>
         js ''is-error'' \<in> set (wrapClasses s'))) \<and>
   (isValidEmail (emailValue s) \<longrightarrow> (\<exists>s1. onSubmit_start s = Awaiting (trim (emailValue s)) s1)) \<and>
   js ''Please enter your email address.'' \<noteq> js ''Please enter a valid email address.'' \<and>
   (spec_email_shape (trim e) \<longrightarrow> isValidEmail e)"
proof -
  have 1: "\<exists>s'. onSubmit_start s = Returned s' \<and> onSubmit api s = s' \<and>
         msgText s' = js ''Please enter your email address.'' \<and> focused s' \<and>
         js ''is-error'' \<in> set (wrapClasses s')" if "trim (emailValue s) = []"
    by (simp add: onSubmit_def start_empty[OF that] validation_error_fields)
  have 2: "\<exists>s'. onSubmit_start s = Returned s' \<and> onSubmit api s = s' \<and>
         msgText s' = js ''Please enter a valid email address.'' \<and> focused s' \<and>
         js ''is-error'' \<in> set (wrapClasses s')"
    if "trim (emailValue s) \<noteq> []" "\<not> isValidEmail (emailValue s)"
    by (simp add: onSubmit_def start_malformed[OF that] validation_error_fields)
  have 3: "\<exists>s1. onSubmit_start s = Awaiting (trim (emailValue s)) s1" if "isValidEmail (emailValue s)"
    using start_valid[OF that] by blast
  from isValidEmail_iff[of e] email_examples 1 2 3 messages_differ spec_shape_is_accepted[of e]
  show ?thesis by blast
qed

text \<open>
  C6, amended. Once validation has passed the button is disabled and reads
  \<open>Sending...\<close>; however the promise settles (success, failure, rejection) the handler
  ends with the button enabled and its label set to the fixed text \<open>Notify Me\<close>. When
  validation fails the button is not touched.
\<close>

theorem submit_cleanup:
  "(onSubmit_start s = Awaiting email s1 \<longrightarrow>
      btnDisabled s1 \<and> btnText s1 = js ''Sending'' @ [0x2026] \<and>
      (\<forall>outcome. \<not> btnDisabled (onSubmit_settle outcome s1) \<and>
                 btnText (onSubmit_settle outcome s1) = js ''Notify Me'')) \<and>
   (isValidEmail (emailValue s) \<longrightarrow>
      \<not> btnDisabled (onSubmit api s) \<and> btnText (onSubmit api s) = js ''Notify Me'') \<and>
   (\<not> isValidEmail (emailValue s) \<longrightarrow>
      btnDisabled (onSubmit api s) = btnDisabled s \<and> btnText (onSubmit api s) = btnText s)"
proof -
  have 1: "btnDisabled s1 \<and> btnText s1 = js ''Sending'' @ [0x2026] \<and>
      (\<forall>outcome. \<not> btnDisabled (onSubmit_settle outcome s1) \<and>
                 btnText (onSubmit_settle outcome s1) = js ''Notify Me'')"
    if "onSubmit_start s = Awaiting email s1"
    using start_cases[OF that] settle_cleanup by simp
  have 2: "\<not> btnDisabled (onSubmit api s) \<and> btnText (onSubmit api s) = js ''Notify Me''"
    if "isValidEmail (emailValue s)"
  proof -
    from start_valid[OF that] obtain s1 where "onSubmit_start s = Awaiting (trim (emailValue s)) s1"
      by blast
    then show ?thesis by (simp add: onSubmit_def settle_cleanup)
  qed
  have 3: "btnDisabled (onSubmit api s) = btnDisabled s \<and> btnText (onSubmit api s) = btnText s"
    if "\<not> isValidEmail (emailValue s)"
  proof (cases "trim (emailValue s) = []")
    case True
    then show ?thesis by (simp add: onSubmit_def start_empty validation_error_fields)
  next
    case False
    then show ?thesis using that by (simp add: onSubmit_def start_malformed validation_error_fields)
  qed
  from 1 2 3 show ?thesis by blast
qed


lemma trim_examples:
  "trim (js ''a@b.co'') = js ''a@b.co''" "trim (js ''  '') = []" "trim (js ''a@b'') = js ''a@b''"
  "trim (js ''a@b.c.d'') = js ''a@b.c.d''"
  by (simp_all add: trim_def js_def isWhiteSpace_def)

lemma demo_forms:
  "emailValue subscribe_form = js ''a@b.co''" "btnText subscribe_form = js ''Subscribe''"
  "emailValue notify_form = js ''a@b.co''" "btnText notify_form = js ''Notify Me''"
  "\<not> btnDisabled notify_form"
  by (simp_all add: subscribe_form_def notify_form_def)

theorem email_validation_witness:
  "(\<exists>L D T. trim (js ''a@b.co'') = L @ [of_char CHR ''@''] @ D @ [of_char CHR ''.''] @ T \<and> L \<noteq> [] \<and>
       D \<noteq> [] \<and> 2 \<le> length T) \<and>
   trim (emailValue (subscribe_form\<lparr>emailValue := js ''  ''\<rparr>)) = [] \<and>
   (\<exists>s'. onSubmit_start (subscribe_form\<lparr>emailValue := js ''  ''\<rparr>) = Returned s' \<and>
       msgText s' = js ''Please enter your email address.'') \<and>
   trim (emailValue (subscribe_form\<lparr>emailValue := js ''a@b''\<rparr>)) \<noteq> [] \<and>
   \<not> isValidEmail (emailValue (subscribe_form\<lparr>emailValue := js ''a@b''\<rparr>)) \<and>
   (\<exists>s'. onSubmit_start (subscribe_form\<lparr>emailValue := js ''a@b''\<rparr>) = Returned s' \<and>
       msgText s' = js ''Please enter a valid email address.'') \<and>
   isValidEmail (emailValue subscribe_form) \<and>
   (\<exists>s1. onSubmit_start subscribe_form = Awaiting (js ''a@b.co'') s1)"
proof -
  note A = email_validation [of "js ''a@b.co''" "subscribe_form\<lparr>emailValue := js ''  ''\<rparr>" "sendToApi (1 / 2)"]
  note B = email_validation [of "js ''a@b.co''" "subscribe_form\<lparr>emailValue := js ''a@b''\<rparr>" "sendToApi (1 / 2)"]
  note C = email_validation [of "js ''a@b.co''" subscribe_form "sendToApi (1 / 2)"]
  have ne: "js ''a@b'' \<noteq> []" by (simp add: js_def)
  have 1: "\<exists>L D T. trim (js ''a@b.co'') = L @ [of_char CHR ''@''] @ D @ [of_char CHR ''.''] @ T \<and> L \<noteq> [] \<and>
       D \<noteq> [] \<and> 2 \<le> length T"
    using A by blast
  have 2: "\<exists>s'. onSubmit_start (subscribe_form\<lparr>emailValue := js ''  ''\<rparr>) = Returned s' \<and>
       msgText s' = js ''Please enter your email address.''"
    using A by (simp add: trim_examples)
  have 3: "\<exists>s'. onSubmit_start (subscribe_form\<lparr>emailValue := js ''a@b''\<rparr>) = Returned s' \<and>
       msgText s' = js ''Please enter a valid email address.''"
    using B ne by (simp add: trim_examples)
  have 4: "\<exists>s1. onSubmit_start subscribe_form = Awaiting (js ''a@b.co'') s1"
    using conjunct2[OF C] by (simp add: demo_forms trim_examples email_examples)
  from 1 2 3 4 ne email_examples show ?thesis
    by (simp add: trim_examples demo_forms)
qed

text \<open>
  C5 as claimed fails on \<open>a@b.c.d\<close>: it is accepted, with one character after the last
  dot of the domain.
\<close>

theorem accepts_short_last_label:
  "isValidEmail (js ''a@b.c.d'') \<and> after_last_dot (trim (js ''a@b.c.d'')) = js ''d'' \<and>
   \<not> spec_email_shape (trim (js ''a@b.c.d''))"
  by (simp add: trim_examples) (simp add: spec_email_shape_def after_last_dot_def email_eval)

theorem submit_cleanup_witness:
  "isValidEmail (emailValue notify_form) \<and>
   \<not> btnDisabled (onSubmit (sendToApi (1 / 2)) notify_form) \<and>
   btnText (onSubmit (sendToApi (1 / 2)) notify_form) = btnText notify_form \<and>
   (\<exists>s1. onSubmit_start notify_form = Awaiting (js ''a@b.co'') s1 \<and> btnDisabled s1 \<and>
      \<not> btnDisabled (onSubmit_settle Rejected s1) \<and>
      btnText (onSubmit_settle Rejected s1) = btnText notify_form \<and>
      \<not> btnDisabled (onSubmit_settle (Resolved False []) s1)) \<and>
   \<not> isValidEmail (emailValue (notify_form\<lparr>emailValue := js ''a@b''\<rparr>)) \<and>
   \<not> btnDisabled (onSubmit (sendToApi (1 / 2)) (notify_form\<lparr>emailValue := js ''a@b''\<rparr>))"
proof -
  have v: "isValidEmail (emailValue notify_form)"
    by (simp add: demo_forms email_examples)
  have nv: "\<not> isValidEmail (emailValue (notify_form\<lparr>emailValue := js ''a@b''\<rparr>))"
    by (simp add: email_examples)
  from start_valid[OF v] obtain s1 where s1: "onSubmit_start notify_form = Awaiting (js ''a@b.co'') s1"
    by (auto simp: demo_forms trim_examples)
  note A = submit_cleanup [of notify_form "js ''a@b.co''" s1 "sendToApi (1 / 2)"]
  note B = submit_cleanup [of "notify_form\<lparr>emailValue := js ''a@b''\<rparr>" "js ''a@b.co''" s1 "sendToApi (1 / 2)"]
  have 1: "\<not> btnDisabled (onSubmit (sendToApi (1 / 2)) notify_form)"
      "btnText (onSubmit (sendToApi (1 / 2)) notify_form) = btnText notify_form"
    using A v by (simp_all add: demo_forms)
  have 2: "btnDisabled s1" "\<not> btnDisabled (onSubmit_settle Rejected s1)"
      "btnText (onSubmit_settle Rejected s1) = btnText notify_form"
      "\<not> btnDisabled (onSubmit_settle (Resolved False []) s1)"
    using A s1 by (simp_all add: demo_forms)
  have 3: "\<not> btnDisabled (onSubmit (sendToApi (1 / 2)) (notify_form\<lparr>emailValue := js ''a@b''\<rparr>))"
    using B nv by (simp add: demo_forms)
  from v nv 1 2 3 s1 show ?thesis by blast
qed

text \<open>
  C6 as claimed fails for a button whose label in the markup is not \<open>Notify Me\<close>: the
  label \<open>Subscribe\<close> is not restored.
\<close>

theorem label_not_restored_to_original:
  "isValidEmail (emailValue subscribe_form) \<and> btnText subscribe_form = js ''Subscribe'' \<and>
   btnText (onSubmit (sendToApi (1 / 2)) subscribe_form) = js ''Notify Me'' \<and>
   btnText (onSubmit (sendToApi (1 / 2)) subscribe_form) \<noteq> btnText subscribe_form"
proof -
  have v: "isValidEmail (emailValue subscribe_form)"
    by (simp add: demo_forms email_examples)
  from start_valid[OF v] obtain s1 where "onSubmit_start subscribe_form = Awaiting (trim (emailValue subscribe_form)) s1"
    by blast
  then have "btnText (onSubmit (sendToApi (1 / 2)) subscribe_form) = js ''Notify Me''"
    by (simp add: onSubmit_def settle_cleanup)
  moreover have "js ''Notify Me'' \<noteq> js ''Subscribe''" by (simp add: js_def)
  ultimately show ?thesis using v by (simp add: demo_forms)
qed

end
